theory Spec2Isabelle
  imports Complex_Main "HOL-Library.Log_Nat" "HOL-Library.AList" "HOL-Library.Multiset"
begin

section \<open>The host language: numbers and strings\<close>

text \<open>
  The pivot engine (\<^verbatim>\<open>aggregations.ts\<close>, \<^verbatim>\<open>pivot-data.ts\<close>, \<^verbatim>\<open>pivot-data-async.ts\<close>) is
  TypeScript. Its numbers are IEEE-754 binary64 values. A number is modelled as \<open>NaN\<close>, one of
  the two infinities, or the rational it denotes; every arithmetic result is rounded to
  the nearest binary64 value, ties to even (\<open>fl\<close>). The sign of zero is not modelled:
  \<open>-0\<close> and \<open>+0\<close> are the one value \<open>Fin 0\<close>.
\<close>

datatype jsnum = NaN | PInf | NInf | Fin rat

definition pow2 :: "int \<Rightarrow> rat" where
  "pow2 z = (if 0 \<le> z then 2 ^ nat z else 1 / 2 ^ nat (- z))"

text \<open>The binary exponent \<open>\<lfloor>log\<^sub>2 a\<rfloor>\<close> of a positive rational, from the bit lengths of
  its numerator and denominator.\<close>

definition ilog2 :: "rat \<Rightarrow> int" where
  "ilog2 a = (let (n, d) = quotient_of a; k = bitlen n - bitlen d
              in if pow2 k \<le> a then k else k - 1)"

definition roundHalfEven :: "rat \<Rightarrow> int" where
  "roundHalfEven x = (let f = \<lfloor>x\<rfloor>; r = x - of_int f
                      in if r < 1 / 2 then f
                         else if 1 / 2 < r then f + 1
                         else if even f then f else f + 1)"

text \<open>Rounding to binary64: 53 significant bits, exponents from \<open>-1022\<close> (below that the
  spacing of the subnormals) to \<open>1023\<close>, overflow to an infinity.\<close>

definition fl :: "rat \<Rightarrow> jsnum" where
  "fl q = (if q = 0 then Fin 0
           else let a = \<bar>q\<bar>;
                    e = max (ilog2 a) (- 1022);
                    u = pow2 (e - 52);
                    r = of_int (roundHalfEven (a / u)) * u
                in if 2 ^ 1024 \<le> r then (if q < 0 then NInf else PInf)
                   else Fin (if q < 0 then - r else r))"

definition isNaN :: "jsnum \<Rightarrow> bool" where
  "isNaN x = (x = NaN)"

fun jsneg :: "jsnum \<Rightarrow> jsnum" where
  "jsneg NaN = NaN"
| "jsneg PInf = NInf"
| "jsneg NInf = PInf"
| "jsneg (Fin a) = Fin (- a)"

text \<open>\<^verbatim>\<open>a + b\<close>\<close>

fun jsadd :: "jsnum \<Rightarrow> jsnum \<Rightarrow> jsnum" where
  "jsadd (Fin a) (Fin b) = fl (a + b)"
| "jsadd NaN _ = NaN"
| "jsadd _ NaN = NaN"
| "jsadd PInf NInf = NaN"
| "jsadd NInf PInf = NaN"
| "jsadd PInf _ = PInf"
| "jsadd _ PInf = PInf"
| "jsadd NInf _ = NInf"
| "jsadd _ NInf = NInf"

text \<open>\<^verbatim>\<open>a - b\<close>\<close>

definition jssub :: "jsnum \<Rightarrow> jsnum \<Rightarrow> jsnum" where
  "jssub a b = jsadd a (jsneg b)"

text \<open>\<^verbatim>\<open>a / b\<close>\<close>

fun jsdiv :: "jsnum \<Rightarrow> jsnum \<Rightarrow> jsnum" where
  "jsdiv (Fin a) (Fin b) =
     (if b = 0 then (if a = 0 then NaN else if 0 < a then PInf else NInf)
      else fl (a / b))"
| "jsdiv NaN _ = NaN"
| "jsdiv _ NaN = NaN"
| "jsdiv (Fin a) _ = Fin 0"
| "jsdiv PInf (Fin b) = (if b < 0 then NInf else PInf)"
| "jsdiv NInf (Fin b) = (if b < 0 then PInf else NInf)"
| "jsdiv _ _ = NaN"

text \<open>\<^verbatim>\<open>a < b\<close>; every comparison with \<open>NaN\<close> is false.\<close>

fun jsless :: "jsnum \<Rightarrow> jsnum \<Rightarrow> bool" where
  "jsless (Fin a) (Fin b) = (a < b)"
| "jsless NaN _ = False"
| "jsless _ NaN = False"
| "jsless NInf NInf = False"
| "jsless NInf _ = True"
| "jsless _ NInf = False"
| "jsless PInf _ = False"
| "jsless _ PInf = True"

text \<open>The number of a length or size. Array lengths and set sizes stay below \<open>2\<^sup>5\<^sup>3\<close>,
  where every natural number is a binary64 value.\<close>

definition ofNat :: "nat \<Rightarrow> jsnum" where
  "ofNat n = Fin (of_nat n)"

text \<open>\<^verbatim>\<open>Math.min(...nums)\<close> and \<^verbatim>\<open>Math.max(...nums)\<close> on a list without \<open>NaN\<close>.\<close>

definition Math_min :: "jsnum list \<Rightarrow> jsnum" where
  "Math_min nums = foldl (\<lambda>m x. if jsless x m then x else m) PInf nums"

definition Math_max :: "jsnum list \<Rightarrow> jsnum" where
  "Math_max nums = foldl (\<lambda>m x. if jsless m x then x else m) NInf nums"

subsection \<open>Parsing numbers\<close>

text \<open>Strings are lists of code units; the white space \<^verbatim>\<open>parseFloat\<close> and \<^verbatim>\<open>parseInt\<close>
  skip is the white space below code unit 128.\<close>

definition isWhiteSpace :: "char \<Rightarrow> bool" where
  "isWhiteSpace c = (of_char c \<in> {9, 10, 11, 12, 13, 32 :: nat})"

definition isDigit :: "char \<Rightarrow> bool" where
  "isDigit c = (48 \<le> (of_char c :: nat) \<and> (of_char c :: nat) \<le> 57)"

definition digitsValue :: "string \<Rightarrow> int" where
  "digitsValue ds = foldl (\<lambda>acc c. 10 * acc + (of_char c - 48)) 0 ds"

text \<open>An optional sign: whether it is a minus, and the rest.\<close>

fun splitSign :: "string \<Rightarrow> bool \<times> string" where
  "splitSign [] = (False, [])"
| "splitSign (c # cs) =
     (if c = CHR ''-'' then (True, cs)
      else if c = CHR ''+'' then (False, cs)
      else (False, c # cs))"

definition pow10 :: "int \<Rightarrow> rat" where
  "pow10 z = (if 0 \<le> z then 10 ^ nat z else 1 / 10 ^ nat (- z))"

text \<open>\<^verbatim>\<open>parseInt(s, 10)\<close>: leading white space, a sign, then the longest run of digits;
  \<open>NaN\<close> when there is none. The result is the integer the digits denote, rounded; past
  the twentieth significant digit the language allows an engine to read the digits as
  zeros.\<close>

definition js_parseInt :: "string \<Rightarrow> jsnum" where
  "js_parseInt s =
     (let (neg, u) = splitSign (dropWhile isWhiteSpace s);
          ds = takeWhile isDigit u
      in if ds = [] then NaN
         else fl (if neg then - of_int (digitsValue ds) else of_int (digitsValue ds)))"

text \<open>The exponent part \<^verbatim>\<open>e\<close>, sign, digits at the head of a string; \<open>0\<close> when the
  head is not a complete exponent part.\<close>

definition exponentPart :: "string \<Rightarrow> int" where
  "exponentPart r =
     (case r of
        [] \<Rightarrow> 0
      | c # cs \<Rightarrow>
          if c = CHR ''e'' \<or> c = CHR ''E'' then
            (let (neg, u) = splitSign cs; ds = takeWhile isDigit u
             in if ds = [] then 0
                else if neg then - digitsValue ds else digitsValue ds)
          else 0)"

text \<open>\<^verbatim>\<open>parseFloat(s)\<close>: leading white space, then the longest prefix that is a decimal
  literal (\<^verbatim>\<open>Infinity\<close>, or digits with an optional fraction and exponent).\<close>

definition js_parseFloat :: "string \<Rightarrow> jsnum" where
  "js_parseFloat s =
     (let (neg, r) = splitSign (dropWhile isWhiteSpace s)
      in if take 8 r = ''Infinity'' then (if neg then NInf else PInf)
         else
           let ip = takeWhile isDigit r;
               r1 = dropWhile isDigit r;
               dot = (r1 \<noteq> [] \<and> hd r1 = CHR ''.'');
               fp = (if dot then takeWhile isDigit (tl r1) else []);
               r2 = (if dot then dropWhile isDigit (tl r1) else r1)
           in if ip = [] \<and> fp = [] then NaN
              else
                let m = of_int (digitsValue (ip @ fp)) * pow10 (exponentPart r2 - int (length fp))
                in fl (if neg then - m else m))"

subsection \<open>Printing numbers\<close>

function intToString :: "int \<Rightarrow> string" where
  "intToString n =
     (if n < 10 then [char_of (48 + n)]
      else intToString (n div 10) @ [char_of (48 + n mod 10)])"
  by pat_completeness auto
termination
  by (relation "measure nat") auto

declare intToString.simps [simp del]

function countDigits :: "int \<Rightarrow> int" where
  "countDigits n = (if n < 10 then 1 else 1 + countDigits (n div 10))"
  by pat_completeness auto
termination
  by (relation "measure nat") auto

declare countDigits.simps [simp del]

text \<open>The decimal exponent: \<open>n\<close> with \<open>10\<^sup>n\<^sup>-\<^sup>1 \<le> q < 10\<^sup>n\<close>, for a positive \<open>q\<close>.\<close>

definition decimalExponent :: "rat \<Rightarrow> int" where
  "decimalExponent q =
     (if 1 \<le> q then countDigits \<lfloor>q\<rfloor>
      else 1 - countDigits (\<lceil>1 / q\<rceil> - 1))"

text \<open>\<^verbatim>\<open>Number::toString\<close> picks the fewest digits \<open>k\<close> and the integer \<open>s\<close> of \<open>k\<close> digits
  such that \<open>s \<times> 10\<^sup>n\<^sup>-\<^sup>k\<close> reads back as the number; of two such \<open>s\<close> the one nearer to it.
  Seventeen digits always suffice for a binary64 value.\<close>

fun shortestDigits :: "rat \<Rightarrow> int \<Rightarrow> nat \<Rightarrow> int \<Rightarrow> int \<times> int" where
  "shortestDigits q n 0 k = (\<lfloor>q / pow10 (n - k)\<rfloor>, k)"
| "shortestDigits q n (Suc fuel) k =
     (let p = pow10 (n - k);
          lo = \<lfloor>q / p\<rfloor>;
          hi = lo + 1;
          okLo = (fl (of_int lo * p) = Fin q);
          okHi = (fl (of_int hi * p) = Fin q)
      in if okLo \<and> okHi then
           (if q - of_int lo * p \<le> of_int hi * p - q then (lo, k) else (hi, k))
         else if okLo then (lo, k)
         else if okHi then (hi, k)
         else shortestDigits q n fuel (k + 1))"

definition positiveToString :: "rat \<Rightarrow> string" where
  "positiveToString q =
     (let n0 = decimalExponent q;
          (s0, k) = shortestDigits q n0 17 1;
          (s, n) = (if s0 = 10 ^ nat k then (10 ^ nat (k - 1), n0 + 1) else (s0, n0));
          ds = intToString s
      in if k \<le> n \<and> n \<le> 21 then ds @ replicate (nat (n - k)) (CHR ''0'')
         else if 0 < n \<and> n \<le> 21 then take (nat n) ds @ ''.'' @ drop (nat n) ds
         else if - 6 < n \<and> n \<le> 0 then ''0.'' @ replicate (nat (- n)) (CHR ''0'') @ ds
         else
           (let e = n - 1;
                ex = (if e < 0 then ''e-'' else ''e+'') @ intToString \<bar>e\<bar>
            in if k = 1 then ds @ ex else take 1 ds @ ''.'' @ drop 1 ds @ ex))"

fun numberToString :: "jsnum \<Rightarrow> string" where
  "numberToString NaN = ''NaN''"
| "numberToString PInf = ''Infinity''"
| "numberToString NInf = ''-Infinity''"
| "numberToString (Fin q) =
     (if q = 0 then ''0''
      else if q < 0 then ''-'' @ positiveToString (- q)
      else positiveToString q)"

subsection \<open>Field values, records, sets and sorting\<close>

text \<open>\<^verbatim>\<open>FieldValue\<close> of \<^verbatim>\<open>types/index.ts\<close> without its \<^verbatim>\<open>Date\<close> member, whose printed form
  depends on the time zone of the host.\<close>

datatype FieldValue = Undefined | Null | Str string | Num jsnum | Bool bool

text \<open>\<^verbatim>\<open>String(v)\<close>\<close>

fun js_String :: "FieldValue \<Rightarrow> string" where
  "js_String Undefined = ''undefined''"
| "js_String Null = ''null''"
| "js_String (Str s) = s"
| "js_String (Num n) = numberToString n"
| "js_String (Bool b) = (if b then ''true'' else ''false'')"

text \<open>\<^verbatim>\<open>v ?? d\<close>\<close>

fun nullish :: "FieldValue \<Rightarrow> FieldValue \<Rightarrow> FieldValue" where
  "nullish Undefined d = d"
| "nullish Null d = d"
| "nullish v d = v"

text \<open>A record (\<^verbatim>\<open>DataItem\<close>) lists its own properties, the first entry of a name being
  the property; reading a property it does not have gives \<^verbatim>\<open>undefined\<close>. Field names are
  not names of \<^verbatim>\<open>Object.prototype\<close>.\<close>

type_synonym DataItem = "(string \<times> FieldValue) list"

definition getField :: "DataItem \<Rightarrow> string \<Rightarrow> FieldValue" where
  "getField item field = (case map_of item field of None \<Rightarrow> Undefined | Some v \<Rightarrow> v)"

text \<open>\<^verbatim>\<open>xs[i]\<close>: \<^verbatim>\<open>undefined\<close> outside the array.\<close>

definition arrayGet :: "FieldValue list \<Rightarrow> int \<Rightarrow> FieldValue" where
  "arrayGet xs i = (if 0 \<le> i \<and> i < int (length xs) then xs ! nat i else Undefined)"

text \<open>A \<^verbatim>\<open>Set\<close> keeps its members in the order of their first insertion.\<close>

definition Set_add :: "'a list \<Rightarrow> 'a \<Rightarrow> 'a list" where
  "Set_add s v = (if v \<in> set s then s else s @ [v])"

definition newSet :: "'a list \<Rightarrow> 'a list" where
  "newSet xs = foldl Set_add [] xs"

text \<open>\<^verbatim>\<open>xs.sort(cmp)\<close>. The sort reads every result of the comparator through
  \<^verbatim>\<open>SortCompare\<close>, which takes \<open>NaN\<close> for \<open>0\<close>. A comparison is a consistent comparator for
  the members of an array when its result is never \<open>NaN\<close>, every member equals itself,
  being equal is symmetric and transitive, and so are being less and being greater.\<close>

definition sortCompare :: "('a \<Rightarrow> 'a \<Rightarrow> jsnum) \<Rightarrow> 'a \<Rightarrow> 'a \<Rightarrow> jsnum" where
  "sortCompare cmp a b = (if cmp a b = NaN then Fin 0 else cmp a b)"

definition consistentComparator :: "('a \<Rightarrow> 'a \<Rightarrow> jsnum) \<Rightarrow> 'a set \<Rightarrow> bool" where
  "consistentComparator cmp S =
     ((\<forall>a\<in>S. \<forall>b\<in>S. cmp a b \<noteq> NaN)
      \<and> (\<forall>a\<in>S. cmp a a = Fin 0)
      \<and> (\<forall>a\<in>S. \<forall>b\<in>S. cmp a b = Fin 0 \<longrightarrow> cmp b a = Fin 0)
      \<and> (\<forall>a\<in>S. \<forall>b\<in>S. \<forall>c\<in>S. cmp a b = Fin 0 \<longrightarrow> cmp b c = Fin 0 \<longrightarrow> cmp a c = Fin 0)
      \<and> (\<forall>a\<in>S. \<forall>b\<in>S. \<forall>c\<in>S.
            jsless (cmp a b) (Fin 0) \<longrightarrow> jsless (cmp b c) (Fin 0) \<longrightarrow> jsless (cmp a c) (Fin 0))
      \<and> (\<forall>a\<in>S. \<forall>b\<in>S. \<forall>c\<in>S.
            jsless (Fin 0) (cmp a b) \<longrightarrow> jsless (Fin 0) (cmp b c) \<longrightarrow> jsless (Fin 0) (cmp a c)))"

text \<open>Where the comparison that the sort reads is a consistent comparator for the members
  of \<open>xs\<close>, the result is the members in the order of the comparison, those that compare
  equal in their order in \<open>xs\<close>: the stable sort, which places \<open>x\<close> after \<open>y\<close> only when
  \<^verbatim>\<open>cmp(x, y) > 0\<close>. No other rearrangement of \<open>xs\<close> is in that order and stable.\<close>

fun insertSorted :: "('a \<Rightarrow> 'a \<Rightarrow> jsnum) \<Rightarrow> 'a \<Rightarrow> 'a list \<Rightarrow> 'a list" where
  "insertSorted cmp x [] = [x]"
| "insertSorted cmp x (y # ys) =
     (if jsless (Fin 0) (cmp x y) then y # insertSorted cmp x ys else x # y # ys)"

definition stableSort :: "('a \<Rightarrow> 'a \<Rightarrow> jsnum) \<Rightarrow> 'a list \<Rightarrow> 'a list" where
  "stableSort cmp xs = foldr (insertSorted cmp) xs []"

text \<open>For any other comparator the language leaves the order to the engine, which still
  returns the members of \<open>xs\<close>, rearranged. The engine's choice is the rank it gives to
  each index of \<open>xs\<close>: the members come out by rank.\<close>

definition arrangeBy :: "(nat \<Rightarrow> nat) \<Rightarrow> 'a list \<Rightarrow> 'a list" where
  "arrangeBy rank xs = map snd (sort_key fst (zip (map rank [0..<length xs]) xs))"

definition Array_sort :: "(nat \<Rightarrow> nat) \<Rightarrow> ('a \<Rightarrow> 'a \<Rightarrow> jsnum) \<Rightarrow> 'a list \<Rightarrow> 'a list" where
  "Array_sort rank cmp xs =
     (if consistentComparator (sortCompare cmp) (set xs) then stableSort cmp xs
      else arrangeBy rank xs)"

subsection \<open>What the host decides\<close>

text \<open>The language leaves to the host the results of four library functions: the
  collation behind \<^verbatim>\<open>a.localeCompare(b, undefined, {numeric: true, sensitivity: 'base'})\<close>,
  the digit grouping of \<^verbatim>\<open>n.toLocaleString()\<close>, and the approximations \<^verbatim>\<open>Math.pow\<close> and
  \<^verbatim>\<open>Math.sqrt\<close>. It also leaves to the host the ranks by which \<^verbatim>\<open>sort\<close> rearranges an
  array of strings, or of numbers, that its comparator does not order consistently. The
  engine is modelled over any host.\<close>

record platform =
  localeCompare :: "string \<Rightarrow> string \<Rightarrow> int"
  toLocaleString :: "nat \<Rightarrow> string"
  Math_pow :: "jsnum \<Rightarrow> jsnum \<Rightarrow> jsnum"
  Math_sqrt :: "jsnum \<Rightarrow> jsnum"
  stringOrder :: "string list \<Rightarrow> nat \<Rightarrow> nat"
  numberOrder :: "jsnum list \<Rightarrow> nat \<Rightarrow> nat"

section \<open>The aggregator (\<^verbatim>\<open>aggregations.ts\<close>)\<close>

text \<open>The thirteen kinds of \<^verbatim>\<open>AggregationFunction\<close>; the \<^verbatim>\<open>default\<close> branch of the switch
  in \<^verbatim>\<open>aggregate\<close> is for none of them.\<close>

datatype AggregationFunction =
    Count | CountUnique | ListUnique | Sum | IntegerSum | Average | Median
  | SampleVariance | SampleStandardDeviation | Minimum | Maximum | First | Last

text \<open>The name of each kind as the source spells it.\<close>

fun aggregationName :: "AggregationFunction \<Rightarrow> string" where
  "aggregationName Count = ''count''"
| "aggregationName CountUnique = ''countUnique''"
| "aggregationName ListUnique = ''listUnique''"
| "aggregationName Sum = ''sum''"
| "aggregationName IntegerSum = ''integerSum''"
| "aggregationName Average = ''average''"
| "aggregationName Median = ''median''"
| "aggregationName SampleVariance = ''sampleVariance''"
| "aggregationName SampleStandardDeviation = ''sampleStandardDeviation''"
| "aggregationName Minimum = ''minimum''"
| "aggregationName Maximum = ''maximum''"
| "aggregationName First = ''first''"
| "aggregationName Last = ''last''"

text \<open>The result type \<^verbatim>\<open>number | string | string[]\<close>.\<close>

datatype AggResult = RNum jsnum | RStr string | RList "string list"

text \<open>\<^verbatim>\<open>data.map(item => item[field]).filter(v => v !== undefined && v !== null)\<close>\<close>

definition fieldValues :: "DataItem list \<Rightarrow> string \<Rightarrow> FieldValue list" where
  "fieldValues data field =
     filter (\<lambda>v. v \<noteq> Undefined \<and> v \<noteq> Null) (map (\<lambda>item. getField item field) data)"

text \<open>\<^verbatim>\<open>values.map(val => parse(String(val))).filter(n => !isNaN(n))\<close>\<close>

definition numericValues :: "(string \<Rightarrow> jsnum) \<Rightarrow> FieldValue list \<Rightarrow> jsnum list" where
  "numericValues parse vs = filter (\<lambda>n. \<not> isNaN n) (map (\<lambda>val. parse (js_String val)) vs)"

text \<open>\<^verbatim>\<open>nums.reduce((acc, val) => acc + val, 0)\<close>\<close>

definition sumReduce :: "jsnum list \<Rightarrow> jsnum" where
  "sumReduce nums = foldl jsadd (Fin 0) nums"

text \<open>The variance shared by the two sample statistics.\<close>

definition sampleVarianceOf :: "platform \<Rightarrow> jsnum list \<Rightarrow> jsnum" where
  "sampleVarianceOf P nums =
     (let mean = jsdiv (sumReduce nums) (ofNat (length nums))
      in jsdiv (foldl (\<lambda>acc val. jsadd acc (Math_pow P (jssub val mean) (Fin 2))) (Fin 0) nums)
               (jssub (ofNat (length nums)) (Fin 1)))"

definition aggregate :: "platform \<Rightarrow> DataItem list \<Rightarrow> string \<Rightarrow> AggregationFunction \<Rightarrow> AggResult" where
  "aggregate P data field fn =
     (if data = [] then RNum (Fin 0)
      else
        let vs = fieldValues data field
        in case fn of
             Count \<Rightarrow> RNum (ofNat (length data))
           | CountUnique \<Rightarrow> RNum (ofNat (length (newSet vs)))
           | ListUnique \<Rightarrow> RList (map js_String (newSet vs))
           | Sum \<Rightarrow> RNum (sumReduce (numericValues js_parseFloat vs))
           | IntegerSum \<Rightarrow> RNum (sumReduce (numericValues js_parseInt vs))
           | Average \<Rightarrow>
               (let nums = numericValues js_parseFloat vs
                in if 0 < length nums
                   then RNum (jsdiv (sumReduce nums) (ofNat (length nums)))
                   else RNum (Fin 0))
           | Median \<Rightarrow>
               (let parsed = numericValues js_parseFloat vs;
                    nums = Array_sort (numberOrder P parsed) (\<lambda>a b. jssub a b) parsed
                in if length nums = 0 then RNum (Fin 0)
                   else
                     let mid = length nums div 2
                     in if length nums mod 2 \<noteq> 0 then RNum (nums ! mid)
                        else RNum (jsdiv (jsadd (nums ! (mid - 1)) (nums ! mid)) (Fin 2)))
           | SampleVariance \<Rightarrow>
               (let nums = numericValues js_parseFloat vs
                in if length nums \<le> 1 then RNum (Fin 0)
                   else RNum (sampleVarianceOf P nums))
           | SampleStandardDeviation \<Rightarrow>
               (let nums = numericValues js_parseFloat vs
                in if length nums \<le> 1 then RNum (Fin 0)
                   else RNum (Math_sqrt P (sampleVarianceOf P nums)))
           | Minimum \<Rightarrow>
               (let nums = numericValues js_parseFloat vs
                in if 0 < length nums then RNum (Math_min nums) else RNum (Fin 0))
           | Maximum \<Rightarrow>
               (let nums = numericValues js_parseFloat vs
                in if 0 < length nums then RNum (Math_max nums) else RNum (Fin 0))
           | First \<Rightarrow> RStr (js_String (nullish (arrayGet vs 0) (Str [])))
           | Last \<Rightarrow> RStr (js_String (nullish (arrayGet vs (int (length vs) - 1)) (Str []))))"

section \<open>The pivot builder (\<^verbatim>\<open>pivot-data.ts\<close>)\<close>

text \<open>The configuration types of \<^verbatim>\<open>types/index.ts\<close>. The properties \<^verbatim>\<open>field\<close> and
  \<^verbatim>\<open>aggregation\<close> of a value field are \<open>vf_field\<close> and \<open>vf_aggregation\<close>, the properties
  \<^verbatim>\<open>field\<close> and \<^verbatim>\<open>values\<close> of a filter are \<open>fc_field\<close> and \<open>fc_values\<close>, the property
  \<^verbatim>\<open>values\<close> of a configuration is \<open>valueFields\<close>, and the properties \<^verbatim>\<open>value\<close> and \<^verbatim>\<open>data\<close>
  of a cell are \<open>cellValue\<close> and \<open>cellData\<close>.\<close>

record ValueFieldConfig =
  vf_field :: string
  vf_aggregation :: AggregationFunction

record FilterConfig =
  fc_field :: string
  fc_values :: "string list"

record PivotConfig =
  rows :: "string list"
  columns :: "string list"
  valueFields :: "ValueFieldConfig list"
  filters :: "FilterConfig list"

text \<open>An \<^verbatim>\<open>AggregatedValues\<close> object lists its keys in the order in which they were first
  assigned; assigning to a key it has replaces the value in place.\<close>

type_synonym AggregatedValues = "(string \<times> AggResult) list"

record PivotCell =
  cellValue :: AggregatedValues
  rowKeys :: "string list"
  columnKeys :: "string list"
  cellData :: "DataItem list"

record PivotTable =
  rowHeaders :: "string list list"
  columnHeaders :: "string list list"
  cells :: "PivotCell list list"
  rowTotals :: "AggregatedValues list"
  columnTotals :: "AggregatedValues list"
  grandTotal :: AggregatedValues

text \<open>\<^verbatim>\<open>String(item[field] ?? 'null')\<close>, the coercion of a grouping or filter value.\<close>

definition coerced :: "DataItem \<Rightarrow> string \<Rightarrow> string" where
  "coerced item field = js_String (nullish (getField item field) (Str ''null''))"

text \<open>The set of coerced values of one field, as the inner \<^verbatim>\<open>forEach\<close> builds it.\<close>

definition distinctValues :: "DataItem list \<Rightarrow> string \<Rightarrow> string list" where
  "distinctValues data field = foldl (\<lambda>vs item. Set_add vs (coerced item field)) [] data"

text \<open>The map \<^verbatim>\<open>uniqueValues\<close> after the outer \<^verbatim>\<open>forEach\<close>.\<close>

definition collectUniqueValues :: "DataItem list \<Rightarrow> string list \<Rightarrow> (string \<rightharpoonup> string list)" where
  "collectUniqueValues data fieldList =
     foldl (\<lambda>uniqueValues field. uniqueValues(field \<mapsto> distinctValues data field)) Map.empty fieldList"

definition smartSort :: "platform \<Rightarrow> string \<Rightarrow> string \<Rightarrow> jsnum" where
  "smartSort P a b =
     (let numA = js_parseFloat a; numB = js_parseFloat b
      in if \<not> isNaN numA \<and> \<not> isNaN numB then jssub numA numB
         else Fin (of_int (localeCompare P a b)))"

function generateCombinations ::
  "platform \<Rightarrow> string list \<Rightarrow> (string \<rightharpoonup> string list) \<Rightarrow> nat \<Rightarrow> string list list" where
  "generateCombinations P fieldList uniqueValues fieldIndex =
     (if length fieldList \<le> fieldIndex then [[]]
      else
        let field = fieldList ! fieldIndex;
            members = (case uniqueValues field of None \<Rightarrow> [] | Some s \<Rightarrow> s);
            vs = Array_sort (stringOrder P members) (smartSort P) members;
            subCombinations = generateCombinations P fieldList uniqueValues (fieldIndex + 1)
        in concat (map (\<lambda>v. map (\<lambda>subCombo. v # subCombo) subCombinations) vs))"
  by pat_completeness auto
termination
  by (relation "measure (\<lambda>(P, fieldList, uniqueValues, fieldIndex). length fieldList - fieldIndex)") auto

declare generateCombinations.simps [simp del]

definition getNestedKeys :: "platform \<Rightarrow> DataItem list \<Rightarrow> string list \<Rightarrow> string list list" where
  "getNestedKeys P data fieldList =
     (if length fieldList = 0 then [[]]
      else generateCombinations P fieldList (collectUniqueValues data fieldList) 0)"

definition filterData :: "DataItem list \<Rightarrow> FilterConfig list \<Rightarrow> DataItem list" where
  "filterData data fs =
     filter (\<lambda>item. list_all (\<lambda>flt. length (fc_values flt) = 0
                                    \<or> coerced item (fc_field flt) \<in> set (fc_values flt)) fs) data"

text \<open>\<^verbatim>\<open>fields[index]\<close> used as a property name: past the end of the array it is
  \<^verbatim>\<open>undefined\<close>, which names the property \<^verbatim>\<open>"undefined"\<close>.\<close>

definition fieldAt :: "string list \<Rightarrow> nat \<Rightarrow> string" where
  "fieldAt fieldList index = (if index < length fieldList then fieldList ! index else ''undefined'')"

text \<open>\<^verbatim>\<open>keys.every((key, index) => String(item[fields[index]] ?? 'null') === key)\<close>, from
  \<open>index\<close> on.\<close>

fun everyKey :: "DataItem \<Rightarrow> string list \<Rightarrow> nat \<Rightarrow> string list \<Rightarrow> bool" where
  "everyKey item fieldList index [] = True"
| "everyKey item fieldList index (key # keys) =
     (coerced item (fieldAt fieldList index) = key \<and> everyKey item fieldList (index + 1) keys)"

definition getSubsetData ::
  "DataItem list \<Rightarrow> string list \<Rightarrow> string list \<Rightarrow> string list \<Rightarrow> string list \<Rightarrow> DataItem list" where
  "getSubsetData data rowKs columnKs rowFields columnFields =
     filter (\<lambda>item. everyKey item rowFields 0 rowKs \<and> everyKey item columnFields 0 columnKs) data"

text \<open>\<^verbatim>\<open>`${valueConfig.field} (${valueConfig.aggregation})`\<close>\<close>

definition valueKey :: "ValueFieldConfig \<Rightarrow> string" where
  "valueKey vc = vf_field vc @ '' ('' @ aggregationName (vf_aggregation vc) @ '')''"

text \<open>The block that fills \<^verbatim>\<open>cellValue\<close>, \<^verbatim>\<open>rowTotal\<close>, \<^verbatim>\<open>colTotal\<close> and \<^verbatim>\<open>grandTotal\<close>: the
  count of the subset under \<^verbatim>\<open>'Count'\<close> when no value field is configured, otherwise one
  assignment per value field, in order.\<close>

definition aggregatedValues :: "platform \<Rightarrow> ValueFieldConfig list \<Rightarrow> DataItem list \<Rightarrow> AggregatedValues" where
  "aggregatedValues P vcs subsetData =
     (if length vcs = 0 then [(''Count'', RNum (ofNat (length subsetData)))]
      else foldl (\<lambda>obj vc. AList.update (valueKey vc)
                              (aggregate P subsetData (vf_field vc) (vf_aggregation vc)) obj)
             [] vcs)"

definition makeCell ::
  "platform \<Rightarrow> PivotConfig \<Rightarrow> DataItem list \<Rightarrow> string list \<Rightarrow> string list \<Rightarrow> PivotCell" where
  "makeCell P config filteredData rowKey colKey =
     (let subsetData = getSubsetData filteredData rowKey colKey (rows config) (columns config)
      in \<lparr>cellValue = aggregatedValues P (valueFields config) subsetData,
          rowKeys = rowKey, columnKeys = colKey, cellData = subsetData\<rparr>)"

definition rowTotalOf :: "platform \<Rightarrow> PivotConfig \<Rightarrow> DataItem list \<Rightarrow> string list \<Rightarrow> AggregatedValues" where
  "rowTotalOf P config filteredData rowKey =
     aggregatedValues P (valueFields config) (getSubsetData filteredData rowKey [] (rows config) [])"

definition colTotalOf :: "platform \<Rightarrow> PivotConfig \<Rightarrow> DataItem list \<Rightarrow> string list \<Rightarrow> AggregatedValues" where
  "colTotalOf P config filteredData colKey =
     aggregatedValues P (valueFields config) (getSubsetData filteredData [] colKey [] (columns config))"

definition generatePivotTable :: "platform \<Rightarrow> DataItem list \<Rightarrow> PivotConfig \<Rightarrow> PivotTable" where
  "generatePivotTable P data config =
     (let filteredData = filterData data (filters config);
          rowKs = getNestedKeys P filteredData (rows config);
          columnKs = getNestedKeys P filteredData (columns config)
      in \<lparr>rowHeaders = rowKs,
          columnHeaders = columnKs,
          cells = map (\<lambda>rowKey. map (\<lambda>colKey. makeCell P config filteredData rowKey colKey) columnKs) rowKs,
          rowTotals = map (\<lambda>rowKey. rowTotalOf P config filteredData rowKey) rowKs,
          columnTotals = map (\<lambda>colKey. colTotalOf P config filteredData colKey) columnKs,
          grandTotal = aggregatedValues P (valueFields config) filteredData\<rparr>)"

section \<open>The asynchronous builder (\<^verbatim>\<open>pivot-data-async.ts\<close>)\<close>

datatype FieldType = Row | Column

text \<open>What the promise is rejected with: \<^verbatim>\<open>new Error('Aborted')\<close>, or a
  \<^verbatim>\<open>PivotValidationError\<close> with its message, field name, axis and distinct count.\<close>

datatype PivotError = Aborted | PivotValidationError string string FieldType nat

text \<open>The builder reads \<^verbatim>\<open>signal?.aborted\<close> at its checkpoints. Other code runs only
  while the builder is suspended at an \<^verbatim>\<open>await\<close>, and two checkpoints with no
  \<^verbatim>\<open>yieldControl\<close> between them have no \<^verbatim>\<open>await\<close> between them, so what a checkpoint reads
  is a function of the number of yields before it. No signal reads as not aborted. The
  records and the configuration are values: they do not change while the builder is
  suspended.\<close>

type_synonym AbortSignal = "nat \<Rightarrow> bool"

definition aborted :: "AbortSignal option \<Rightarrow> nat \<Rightarrow> bool" where
  "aborted signal t = (case signal of None \<Rightarrow> False | Some s \<Rightarrow> s t)"

definition CHUNK_SIZE :: nat where
  "CHUNK_SIZE = 100"

definition validationMessage :: "platform \<Rightarrow> string \<Rightarrow> nat \<Rightarrow> string" where
  "validationMessage P field n =
     ''Field '' @ [CHR 0x22] @ field @ [CHR 0x22] @ '' has too many unique values (''
       @ toLocaleString P n @ '')''"

text \<open>The first loop of \<^verbatim>\<open>getNestedKeysAsync\<close>: per field, collect, store, then validate.\<close>

fun collectValidated ::
  "platform \<Rightarrow> DataItem list \<Rightarrow> FieldType option \<Rightarrow> jsnum \<Rightarrow> (string \<rightharpoonup> string list)
     \<Rightarrow> string list \<Rightarrow> PivotError + (string \<rightharpoonup> string list)" where
  "collectValidated P data fieldType pivotItemThreshold uniqueValues [] = Inr uniqueValues"
| "collectValidated P data fieldType pivotItemThreshold uniqueValues (field # fieldList) =
     (let vs = distinctValues data field;
          uniqueValues' = uniqueValues(field \<mapsto> vs)
      in if jsless pivotItemThreshold (ofNat (length vs)) \<and> fieldType \<noteq> None
         then Inl (PivotValidationError (validationMessage P field (length vs)) field
                     (the fieldType) (length vs))
         else collectValidated P data fieldType pivotItemThreshold uniqueValues' fieldList)"

definition getNestedKeysAsync ::
  "platform \<Rightarrow> DataItem list \<Rightarrow> string list \<Rightarrow> AbortSignal option \<Rightarrow> FieldType option \<Rightarrow> jsnum
     \<Rightarrow> PivotError + string list list" where
  "getNestedKeysAsync P data fieldList signal fieldType pivotItemThreshold =
     (if length fieldList = 0 then Inr [[]]
      else case collectValidated P data fieldType pivotItemThreshold Map.empty fieldList of
             Inl err \<Rightarrow> Inl err
           | Inr uniqueValues \<Rightarrow> Inr (generateCombinations P fieldList uniqueValues 0))"

text \<open>The row loop, from \<open>rowIndex\<close> on, after \<open>t\<close> yields: at every multiple of
  \<open>CHUNK_SIZE\<close> it yields and then reads the signal. It returns the cells, the row
  totals and the number of yields.\<close>

function rowLoop ::
  "platform \<Rightarrow> PivotConfig \<Rightarrow> DataItem list \<Rightarrow> AbortSignal option \<Rightarrow> string list list
     \<Rightarrow> string list list \<Rightarrow> nat \<Rightarrow> nat \<Rightarrow> PivotCell list list \<Rightarrow> AggregatedValues list
     \<Rightarrow> PivotError + (PivotCell list list \<times> AggregatedValues list \<times> nat)" where
  "rowLoop P config filteredData signal rowKs columnKs rowIndex t cs rts =
     (if rowIndex < length rowKs then
        (let t' = (if rowIndex mod CHUNK_SIZE = 0 then t + 1 else t)
         in if rowIndex mod CHUNK_SIZE = 0 \<and> aborted signal t' then Inl Aborted
            else
              let rowKey = rowKs ! rowIndex;
                  row = map (\<lambda>colKey. makeCell P config filteredData rowKey colKey) columnKs;
                  rowTotal = rowTotalOf P config filteredData rowKey
              in rowLoop P config filteredData signal rowKs columnKs (rowIndex + 1) t'
                   (cs @ [row]) (rts @ [rowTotal]))
      else Inr (cs, rts, t))"
  by pat_completeness auto
termination
  by (relation "measure (\<lambda>(P, config, filteredData, signal, rowKs, columnKs, rowIndex, t, cs, rts).
                           length rowKs - rowIndex)") auto

declare rowLoop.simps [simp del]

text \<open>The column-total loop, in the same shape.\<close>

function colLoop ::
  "platform \<Rightarrow> PivotConfig \<Rightarrow> DataItem list \<Rightarrow> AbortSignal option \<Rightarrow> string list list
     \<Rightarrow> nat \<Rightarrow> nat \<Rightarrow> AggregatedValues list \<Rightarrow> PivotError + (AggregatedValues list \<times> nat)" where
  "colLoop P config filteredData signal columnKs colIndex t cts =
     (if colIndex < length columnKs then
        (let t' = (if colIndex mod CHUNK_SIZE = 0 then t + 1 else t)
         in if colIndex mod CHUNK_SIZE = 0 \<and> aborted signal t' then Inl Aborted
            else
              let colKey = columnKs ! colIndex;
                  colTotal = colTotalOf P config filteredData colKey
              in colLoop P config filteredData signal columnKs (colIndex + 1) t' (cts @ [colTotal]))
      else Inr (cts, t))"
  by pat_completeness auto
termination
  by (relation "measure (\<lambda>(P, config, filteredData, signal, columnKs, colIndex, t, cts).
                           length columnKs - colIndex)") auto

declare colLoop.simps [simp del]

text \<open>The builder from its second checkpoint on, once both key derivations have passed:
  the row loop, a checkpoint, the column loop, the grand total.\<close>

definition afterKeys ::
  "platform \<Rightarrow> PivotConfig \<Rightarrow> DataItem list \<Rightarrow> AbortSignal option \<Rightarrow> string list list
     \<Rightarrow> string list list \<Rightarrow> PivotError + PivotTable" where
  "afterKeys P config filteredData signal rowKs columnKs =
     (if aborted signal 2 then Inl Aborted
      else
        (case rowLoop P config filteredData signal rowKs columnKs 0 2 [] [] of
           Inl err \<Rightarrow> Inl err
         | Inr (cs, rts, t) \<Rightarrow>
             (if aborted signal t then Inl Aborted
              else
                (case colLoop P config filteredData signal columnKs 0 t [] of
                   Inl err \<Rightarrow> Inl err
                 | Inr (cts, t') \<Rightarrow>
                     Inr \<lparr>rowHeaders = rowKs,
                          columnHeaders = columnKs,
                          cells = cs,
                          rowTotals = rts,
                          columnTotals = cts,
                          grandTotal = aggregatedValues P (valueFields config) filteredData\<rparr>))))"

text \<open>The two awaited key derivations are each followed by a yield, which makes the
  checkpoint after them the one after two yields.\<close>

definition generatePivotTableAsync ::
  "platform \<Rightarrow> DataItem list \<Rightarrow> PivotConfig \<Rightarrow> AbortSignal option \<Rightarrow> jsnum \<Rightarrow> PivotError + PivotTable" where
  "generatePivotTableAsync P data config signal pivotItemThreshold =
     (let filteredData = filterData data (filters config)
      in if aborted signal 0 then Inl Aborted
         else
           (case getNestedKeysAsync P filteredData (rows config) signal (Some Row) pivotItemThreshold of
              Inl err \<Rightarrow> Inl err
            | Inr rowKs \<Rightarrow>
                (case getNestedKeysAsync P filteredData (columns config) signal (Some Column)
                        pivotItemThreshold of
                   Inl err \<Rightarrow> Inl err
                 | Inr columnKs \<Rightarrow> afterKeys P config filteredData signal rowKs columnKs)))"

section \<open>A host for the examples\<close>

text \<open>The theorems below hold on every host. Where a definition is run on a concrete
  input, the host is this one: it collates by code unit, prints sizes as plain decimal
  digits, and returns an array that its comparator does not order consistently in
  reverse. None of the examples calls \<^verbatim>\<open>Math.pow\<close> or \<^verbatim>\<open>Math.sqrt\<close>.\<close>

fun codeUnitCompare :: "string \<Rightarrow> string \<Rightarrow> int" where
  "codeUnitCompare [] [] = 0"
| "codeUnitCompare [] (b # bs) = - 1"
| "codeUnitCompare (a # as) [] = 1"
| "codeUnitCompare (a # as) (b # bs) =
     (if a = b then codeUnitCompare as bs
      else if (of_char a :: nat) < of_char b then - 1 else 1)"

definition exampleHost :: platform where
  "exampleHost =
     \<lparr>localeCompare = codeUnitCompare,
      toLocaleString = (\<lambda>n. intToString (int n)),
      Math_pow = (\<lambda>x y. NaN),
      Math_sqrt = (\<lambda>x. NaN),
      stringOrder = (\<lambda>xs i. length xs - i),
      numberOrder = (\<lambda>xs i. length xs - i)\<rparr>"

section \<open>The claims in the words of the specification\<close>

text \<open>The integer sum as the specification words it: every record is looked at on its
  own; a value that is \<^verbatim>\<open>null\<close> or \<^verbatim>\<open>undefined\<close> is passed over, a value whose integer
  parse fails is discarded, and every other value adds its integer parse to the total.\<close>

fun integerSumFrom :: "jsnum \<Rightarrow> DataItem list \<Rightarrow> string \<Rightarrow> jsnum" where
  "integerSumFrom acc [] field = acc"
| "integerSumFrom acc (item # rest) field =
     (let v = getField item field
      in if v = Undefined \<or> v = Null then integerSumFrom acc rest field
         else
           let n = js_parseInt (js_String v)
           in if isNaN n then integerSumFrom acc rest field
              else integerSumFrom (jsadd acc n) rest field)"



text \<open>The distinct coerced values of one grouping field as the sort leaves them.\<close>

definition sortedValues :: "platform \<Rightarrow> DataItem list \<Rightarrow> string \<Rightarrow> string list" where
  "sortedValues P data field =
     Array_sort (stringOrder P (distinctValues data field)) (smartSort P) (distinctValues data field)"

text \<open>A comparator leaves \<open>x\<close> before \<open>y\<close> when its result is not positive, and a list is in
  the order of the comparator when it leaves every member before all later ones. The
  rank of a member of a set is the number of members that the comparator places strictly
  before it.\<close>

definition inOrder :: "('a \<Rightarrow> 'a \<Rightarrow> jsnum) \<Rightarrow> 'a \<Rightarrow> 'a \<Rightarrow> bool" where
  "inOrder cmp x y = (\<not> jsless (Fin 0) (cmp x y))"

definition rankIn :: "('a \<Rightarrow> 'a \<Rightarrow> jsnum) \<Rightarrow> 'a set \<Rightarrow> 'a \<Rightarrow> nat" where
  "rankIn cmp S x = card {y \<in> S. jsless (cmp y x) (Fin 0)}"

text \<open>The aggregated values of an empty record subset: \<^verbatim>\<open>{"Count": 0}\<close> without value
  fields, otherwise the number \<open>0\<close> under the key of every value field.\<close>

definition emptyDefaults :: "ValueFieldConfig list \<Rightarrow> AggregatedValues" where
  "emptyDefaults vcs =
     (if vcs = [] then [(''Count'', RNum (Fin 0))]
      else map (\<lambda>key. (key, RNum (Fin 0))) (newSet (map valueKey vcs)))"

text \<open>The cardinality of a field: how many distinct coerced values it takes over the
  records. A count exceeds a limit when the limit is less than it, as \<^verbatim>\<open>size > limit\<close>
  compares them.\<close>

definition distinctCount :: "DataItem list \<Rightarrow> string \<Rightarrow> nat" where
  "distinctCount data field = card ((\<lambda>item. coerced item field) ` set data)"

definition exceedsLimit :: "jsnum \<Rightarrow> nat \<Rightarrow> bool" where
  "exceedsLimit L n = jsless L (ofNat n)"

text \<open>Row-total consistency. The number under a key of an aggregated-values object, when
  there is one. The row total equals the sum of the row's cells when every cell has a
  number under the key and the total's number is their sum: added as the language adds
  numbers, from \<open>0\<close> and from the first column on, or added as rationals.\<close>

definition numberAt :: "string \<Rightarrow> AggregatedValues \<Rightarrow> jsnum option" where
  "numberAt key obj = (case map_of obj key of Some (RNum n) \<Rightarrow> Some n | _ \<Rightarrow> None)"

fun exactTotal :: "jsnum list \<Rightarrow> rat option" where
  "exactTotal [] = Some 0"
| "exactTotal (Fin q # ns) = map_option (\<lambda>s. q + s) (exactTotal ns)"
| "exactTotal (_ # ns) = None"

definition rowTotalIsSumOfCells :: "string \<Rightarrow> AggregatedValues \<Rightarrow> PivotCell list \<Rightarrow> bool" where
  "rowTotalIsSumOfCells key tot row =
     (case those (map (\<lambda>cell. numberAt key (cellValue cell)) row) of
        None \<Rightarrow> False
      | Some ns \<Rightarrow> numberAt key tot = Some (sumReduce ns))"

definition rowTotalIsExactSumOfCells :: "string \<Rightarrow> AggregatedValues \<Rightarrow> PivotCell list \<Rightarrow> bool" where
  "rowTotalIsExactSumOfCells key tot row =
     (case those (map (\<lambda>cell. numberAt key (cellValue cell)) row) of
        None \<Rightarrow> False
      | Some ns \<Rightarrow>
          (case exactTotal ns of
             None \<Rightarrow> False
           | Some s \<Rightarrow> numberAt key tot = Some (Fin s)))"

text \<open>The numbers that \<^verbatim>\<open>count\<close>, \<^verbatim>\<open>sum\<close> and \<^verbatim>\<open>integerSum\<close> add up: one per record for
  \<^verbatim>\<open>count\<close>, the parsed value of each record that has one for the other two. A list of
  numbers is exactly summable when all are integers and their magnitudes total less than
  \<open>2\<^sup>5\<^sup>3\<close>, so that no addition of any of them rounds.\<close>

definition contribution :: "ValueFieldConfig \<Rightarrow> DataItem \<Rightarrow> jsnum list" where
  "contribution vc item =
     (case vf_aggregation vc of
        Count \<Rightarrow> [Fin 1]
      | Sum \<Rightarrow> numericValues js_parseFloat (fieldValues [item] (vf_field vc))
      | IntegerSum \<Rightarrow> numericValues js_parseInt (fieldValues [item] (vf_field vc))
      | _ \<Rightarrow> [])"

definition summedNumbers :: "DataItem list \<Rightarrow> ValueFieldConfig \<Rightarrow> jsnum list" where
  "summedNumbers data vc = concat (map (contribution vc) data)"

fun integerPart :: "jsnum \<Rightarrow> int" where
  "integerPart (Fin q) = \<lfloor>q\<rfloor>"
| "integerPart _ = 0"

fun integerValued :: "jsnum \<Rightarrow> bool" where
  "integerValued (Fin q) = (of_int \<lfloor>q\<rfloor> = q)"
| "integerValued _ = False"

definition exactlySummable :: "jsnum list \<Rightarrow> bool" where
  "exactlySummable ns =
     (list_all integerValued ns \<and> sum_list (map (\<lambda>x. \<bar>integerPart x\<bar>) ns) < 2 ^ 53)"

text \<open>The integer a record adds under a value field, and the magnitude it adds.\<close>

definition weight :: "ValueFieldConfig \<Rightarrow> DataItem \<Rightarrow> int" where
  "weight vc item = sum_list (map integerPart (contribution vc item))"

definition magnitude :: "ValueFieldConfig \<Rightarrow> DataItem \<Rightarrow> int" where
  "magnitude vc item = sum_list (map (\<lambda>x. \<bar>integerPart x\<bar>) (contribution vc item))"

section \<open>Example inputs\<close>

text \<open>The six records and the configuration of the example scenario, and three records
  whose first field holds numbers written as text.\<close>

definition exampleRecords :: "DataItem list" where
  "exampleRecords =
     [[(''region'', Str ''North''), (''product'', Str ''A''), (''sales'', Num (Fin 100))],
      [(''region'', Str ''North''), (''product'', Str ''B''), (''sales'', Num (Fin 150))],
      [(''region'', Str ''South''), (''product'', Str ''A''), (''sales'', Num (Fin 200))],
      [(''region'', Str ''South''), (''product'', Str ''B''), (''sales'', Num (Fin 120))],
      [(''region'', Str ''East''), (''product'', Str ''A''), (''sales'', Num (Fin 90))],
      [(''region'', Str ''West''), (''product'', Str ''C''), (''sales'', Num (Fin 160))]]"

definition exampleConfig :: PivotConfig where
  "exampleConfig =
     \<lparr>rows = [''region''], columns = [''product''],
      valueFields = [\<lparr>vf_field = ''sales'', vf_aggregation = Sum\<rparr>], filters = []\<rparr>"

definition sizeRecords :: "DataItem list" where
  "sizeRecords =
     [[(''size'', Str ''10''), (''colour'', Str ''red'')],
      [(''size'', Str ''9''), (''colour'', Str ''blue'')],
      [(''size'', Str ''10''), (''colour'', Str ''blue'')]]"

text \<open>The same records with their sales written as text.\<close>

definition textRecords :: "DataItem list" where
  "textRecords =
     [[(''region'', Str ''North''), (''product'', Str ''A''), (''sales'', Str ''100'')],
      [(''region'', Str ''North''), (''product'', Str ''B''), (''sales'', Str ''150'')],
      [(''region'', Str ''South''), (''product'', Str ''A''), (''sales'', Str ''200'')]]"

text \<open>Three records whose sum passes \<open>2\<^sup>5\<^sup>3\<close>, grouped into two columns.\<close>

definition roundingRecords :: "DataItem list" where
  "roundingRecords =
     [[(''k'', Str ''a''), (''v'', Str ''9007199254740992'')],
      [(''k'', Str ''b''), (''v'', Str ''1'')],
      [(''k'', Str ''b''), (''v'', Str ''1'')]]"

definition roundingConfig :: PivotConfig where
  "roundingConfig =
     \<lparr>rows = [], columns = [''k''],
      valueFields = [\<lparr>vf_field = ''v'', vf_aggregation = Sum\<rparr>,
                     \<lparr>vf_field = ''v'', vf_aggregation = IntegerSum\<rparr>],
      filters = []\<rparr>"

text \<open>Three records whose values are decimal fractions, grouped into two columns.\<close>

definition decimalRecords :: "DataItem list" where
  "decimalRecords =
     [[(''k'', Str ''a''), (''v'', Str ''0.1'')],
      [(''k'', Str ''b''), (''v'', Str ''0.2'')],
      [(''k'', Str ''b''), (''v'', Str ''0.3'')]]"

definition decimalConfig :: PivotConfig where
  "decimalConfig =
     \<lparr>rows = [], columns = [''k''],
      valueFields = [\<lparr>vf_field = ''v'', vf_aggregation = Sum\<rparr>],
      filters = []\<rparr>"

text \<open>The configuration of the example scenario with its filter on the region.\<close>

definition filteredConfig :: PivotConfig where
  "filteredConfig =
     \<lparr>rows = [''region''], columns = [''product''],
      valueFields = [\<lparr>vf_field = ''sales'', vf_aggregation = Sum\<rparr>],
      filters = [\<lparr>fc_field = ''region'', fc_values = [''North'', ''South'']\<rparr>]\<rparr>"



section \<open>Properties of the host arithmetic\<close>

lemma pow2_powi: "pow2 z = 2 powi z"
  by (simp add: pow2_def power_int_def inverse_eq_divide power_one_over)

lemma pow2_pos [simp]: "0 < pow2 z"
  by (simp add: pow2_powi)

lemma pow2_add: "pow2 (x + y) = pow2 x * pow2 y"
  by (simp add: pow2_powi power_int_add)

lemma pow2_diff: "pow2 (x - y) = pow2 x / pow2 y"
  by (simp add: pow2_powi power_int_diff)

lemma pow2_less_iff [simp]: "pow2 x < pow2 y \<longleftrightarrow> x < y"
  unfolding pow2_powi
  by (metis power_int_strict_increasing power_int_increasing linorder_not_less one_less_numeral_iff
      semiring_norm(76) one_le_numeral)

lemma pow2_le_iff [simp]: "pow2 x \<le> pow2 y \<longleftrightarrow> x \<le> y"
  by (metis pow2_less_iff linorder_not_less)

lemma pow2_nat: "0 \<le> z \<Longrightarrow> pow2 z = 2 ^ nat z"
  by (simp add: pow2_def)

lemma bitlen_pow2_bounds:
  assumes "0 < n"
  shows "pow2 (bitlen n - 1) \<le> of_int n" and "of_int n < pow2 (bitlen n)"
proof -
  from assms have b: "1 \<le> bitlen n"
    using bitlen_eq_zero_iff [of n] bitlen_nonneg [of n] by linarith
  from bitlen_bounds [OF assms] have lo: "2 ^ nat (bitlen n - 1) \<le> n" and hi: "n < 2 ^ nat (bitlen n)"
    by simp_all
  have "(of_int (2 ^ nat (bitlen n - 1)) :: rat) \<le> of_int n"
    using lo of_int_le_iff by blast
  then show "pow2 (bitlen n - 1) \<le> of_int n"
    using b by (simp add: pow2_nat)
  have "(of_int n :: rat) < of_int (2 ^ nat (bitlen n))"
    using hi of_int_less_iff by blast
  then show "of_int n < pow2 (bitlen n)"
    using b by (simp add: pow2_nat)
qed

lemma ilog2_bounds:
  assumes "0 < a"
  shows "pow2 (ilog2 a) \<le> a \<and> a < pow2 (ilog2 a + 1)"
proof -
  obtain n d where q: "quotient_of a = (n, d)" by (cases "quotient_of a")
  have d: "0 < d" using q by (rule quotient_of_denom_pos)
  have a: "a = of_int n / of_int d" using q by (rule quotient_of_div)
  have n: "0 < n" using assms d a by (simp add: zero_less_divide_iff)
  let ?k = "bitlen n - bitlen d"
  have "a < pow2 (bitlen n) / pow2 (bitlen d - 1)"
    unfolding a using bitlen_pow2_bounds [OF n] bitlen_pow2_bounds [OF d] d n
    by (intro frac_less) (simp_all add: less_imp_le)
  then have hi: "a < pow2 (?k + 1)"
    by (simp add: pow2_diff [symmetric] algebra_simps)
  have "pow2 (bitlen n - 1) / pow2 (bitlen d) < a"
    unfolding a using bitlen_pow2_bounds [OF n] bitlen_pow2_bounds [OF d] d n
    by (intro frac_less2) (simp_all add: less_imp_le)
  then have lo: "pow2 (?k - 1) < a"
    by (simp add: pow2_diff [symmetric] algebra_simps)
  show ?thesis
  proof (cases "pow2 ?k \<le> a")
    case True
    then have "ilog2 a = ?k" by (simp add: ilog2_def q)
    with True hi show ?thesis by simp
  next
    case False
    then have "ilog2 a = ?k - 1" by (simp add: ilog2_def q)
    with False lo show ?thesis by (simp add: less_imp_le)
  qed
qed

lemma ilog2_unique:
  assumes "0 < a" "pow2 e \<le> a" "a < pow2 (e + 1)"
  shows "ilog2 a = e"
proof -
  from ilog2_bounds [OF assms(1)] have l: "pow2 (ilog2 a) \<le> a" and h: "a < pow2 (ilog2 a + 1)"
    by simp_all
  from assms(2) h have "pow2 e < pow2 (ilog2 a + 1)" by (rule le_less_trans)
  moreover from l assms(3) have "pow2 (ilog2 a) < pow2 (e + 1)" by (rule le_less_trans)
  ultimately show ?thesis by simp
qed

lemma roundHalfEven_of_int [simp]: "roundHalfEven (of_int z) = z"
  by (simp add: roundHalfEven_def)

lemma fl_of_int:
  assumes "\<bar>n\<bar> < 2 ^ 53"
  shows "fl (of_int n) = Fin (of_int n)"
proof (cases "n = 0")
  case True
  then show ?thesis by (simp add: fl_def)
next
  case False
  define a :: rat where "a = \<bar>of_int n\<bar>"
  define e where "e = ilog2 a"
  have apos: "0 < a" using False by (simp add: a_def)
  have a1: "1 \<le> a"
  proof -
    have "1 \<le> \<bar>n\<bar>" using False by simp
    then have "(1::rat) \<le> of_int \<bar>n\<bar>" by (simp only: of_int_1_le_iff)
    then show ?thesis by (simp add: a_def)
  qed
  have a2: "a < 2 ^ 53"
  proof -
    have "(of_int \<bar>n\<bar> :: rat) < of_int (2 ^ 53)" using assms of_int_less_iff by blast
    then show ?thesis by (simp add: a_def)
  qed
  have aint: "a = of_int \<bar>n\<bar>" by (simp add: a_def)
  from ilog2_bounds [OF apos] have l: "pow2 e \<le> a" and h: "a < pow2 (e + 1)"
    by (simp_all add: e_def)
  have "pow2 0 < pow2 (e + 1)" using a1 h by (simp add: pow2_def)
  then have e0: "0 \<le> e" by simp
  have "pow2 e < pow2 53" using l a2 by (simp add: pow2_def)
  then have e52: "e \<le> 52" by simp
  have m: "max e (- 1022) = e" using e0 by simp
  have u: "pow2 (e - 52) = 1 / 2 ^ nat (52 - e)"
    using e52 by (cases "e = 52") (simp_all add: pow2_def)
  have q: "a / pow2 (e - 52) = of_int (\<bar>n\<bar> * 2 ^ nat (52 - e))"
    by (simp add: u aint)
  have r: "of_int (roundHalfEven (a / pow2 (e - 52))) * pow2 (e - 52) = a"
    unfolding q roundHalfEven_of_int by (simp add: u aint)
  have big: "\<not> (2 ^ 1024 \<le> a)"
  proof -
    have "(2::rat) ^ 53 \<le> 2 ^ 1024" by (rule power_increasing) simp_all
    with a2 show ?thesis by linarith
  qed
  have nz: "(of_int n :: rat) \<noteq> 0" using False by simp
  have "fl (of_int n) = Fin (if (of_int n :: rat) < 0 then - a else a)"
    unfolding fl_def Let_def a_def [symmetric] e_def [symmetric] m r
    using nz big by (simp only: if_False)
  then show ?thesis by (simp add: a_def split: if_splits)
qed

lemma fl_numeral [simp]: "\<bar>numeral k :: int\<bar> < 2 ^ 53 \<Longrightarrow> fl (numeral k) = Fin (numeral k)"
  using fl_of_int [of "numeral k"] by simp

lemma fl_neg_numeral [simp]:
  "\<bar>numeral k :: int\<bar> < 2 ^ 53 \<Longrightarrow> fl (- numeral k) = Fin (- numeral k)"
  using fl_of_int [of "- numeral k"] by simp

lemma fl_0 [simp]: "fl 0 = Fin 0"
  by (simp add: fl_def)

lemma fl_1 [simp]: "fl 1 = Fin 1"
  using fl_of_int [of 1] by simp

lemma fl_neg_1 [simp]: "fl (- 1) = Fin (- 1)"
  using fl_of_int [of "- 1"] by simp

lemma floor_rat_numeral [simp]: "\<lfloor>numeral a / numeral b :: rat\<rfloor> = numeral a div numeral b"
  by (metis floor_divide_of_int_eq of_int_numeral)

lemma fl_normal:
  assumes "0 < q" "pow2 e \<le> q" "q < pow2 (e + 1)" "- 1022 \<le> e"
    and "of_int (roundHalfEven (q / pow2 (e - 52))) * pow2 (e - 52) < 2 ^ 1024"
  shows "fl q = Fin (of_int (roundHalfEven (q / pow2 (e - 52))) * pow2 (e - 52))"
proof -
  have i: "ilog2 q = e" using assms(1-3) by (simp add: ilog2_unique)
  have m: "max e (- 1022) = e" using assms(4) by simp
  have a: "\<bar>q\<bar> = q" using assms(1) by simp
  have n: "\<not> 2 ^ 1024 \<le> rat_of_int (roundHalfEven (q / pow2 (e - 52))) * pow2 (e - 52)"
    using assms(5) by (simp only: not_le)
  have z: "q \<noteq> 0" "\<not> q < 0" using assms(1) by simp_all
  show ?thesis
    unfolding fl_def Let_def a i m using n z by (simp only: if_False)
qed

lemma fl_two_53: "fl 9007199254740992 = Fin 9007199254740992"
  by (subst fl_normal [where e = 53]) (simp_all add: pow2_def roundHalfEven_def Let_def)

lemma fl_two_53_plus_1: "fl 9007199254740993 = Fin 9007199254740992"
  by (subst fl_normal [where e = 53]) (simp_all add: pow2_def roundHalfEven_def Let_def)

lemma fl_two_53_plus_2: "fl 9007199254740994 = Fin 9007199254740994"
  by (subst fl_normal [where e = 53]) (simp_all add: pow2_def roundHalfEven_def Let_def)

lemma fl_2 [simp]: "fl 2 = Fin 2"
  by simp

lemmas parse_simps = js_parseInt_def js_parseFloat_def isWhiteSpace_def isDigit_def
  digitsValue_def exponentPart_def pow10_def

text \<open>The binary64 values of \<open>0.1\<close>, \<open>0.2\<close> and \<open>0.3\<close>, and their sums in the two orders
  in which a pivot table adds them: \<open>(0.1 + 0.2) + 0.3\<close> is \<open>0.6000000000000001\<close>, while
  \<open>0.2 + 0.3\<close> is \<open>0.5\<close> and \<open>0.1 + 0.5\<close> is \<open>0.6\<close>.\<close>

lemmas fl_eval = pow2_def roundHalfEven_def Let_def

lemma fl_tenth: "fl (1 / 10) = Fin (3602879701896397 / 36028797018963968)"
  by (subst fl_normal [where e = "- 4"]) (simp_all add: fl_eval)

lemma fl_fifth: "fl (1 / 5) = Fin (3602879701896397 / 18014398509481984)"
  by (subst fl_normal [where e = "- 3"]) (simp_all add: fl_eval)

lemma fl_three_tenths: "fl (3 / 10) = Fin (5404319552844595 / 18014398509481984)"
  by (subst fl_normal [where e = "- 2"]) (simp_all add: fl_eval)

lemma parseFloat_decimals:
  "js_parseFloat ''0.1'' = Fin (3602879701896397 / 36028797018963968)"
  "js_parseFloat ''0.2'' = Fin (3602879701896397 / 18014398509481984)"
  "js_parseFloat ''0.3'' = Fin (5404319552844595 / 18014398509481984)"
  by (simp_all add: parse_simps fl_tenth fl_fifth fl_three_tenths)

lemma add_zero_tenth:
  "jsadd (Fin 0) (Fin (3602879701896397 / 36028797018963968))
   = Fin (3602879701896397 / 36028797018963968)"
  unfolding jsadd.simps
  by (subst fl_normal [where e = "- 4"]) (simp_all add: fl_eval)

lemma add_zero_fifth:
  "jsadd (Fin 0) (Fin (3602879701896397 / 18014398509481984))
   = Fin (3602879701896397 / 18014398509481984)"
  unfolding jsadd.simps
  by (subst fl_normal [where e = "- 3"]) (simp_all add: fl_eval)

lemma add_tenth_fifth:
  "jsadd (Fin (3602879701896397 / 36028797018963968)) (Fin (3602879701896397 / 18014398509481984))
   = Fin (1351079888211149 / 4503599627370496)"
  unfolding jsadd.simps
  by (subst fl_normal [where e = "- 2"]) (simp_all add: fl_eval)

lemma add_tenth_fifth_three_tenths:
  "jsadd (Fin (1351079888211149 / 4503599627370496)) (Fin (5404319552844595 / 18014398509481984))
   = Fin (1351079888211149 / 2251799813685248)"
  unfolding jsadd.simps
  by (subst fl_normal [where e = "- 1"]) (simp_all add: fl_eval)

lemma add_fifth_three_tenths:
  "jsadd (Fin (3602879701896397 / 18014398509481984)) (Fin (5404319552844595 / 18014398509481984))
   = Fin (1 / 2)"
  unfolding jsadd.simps
  by (subst fl_normal [where e = "- 1"]) (simp_all add: fl_eval)

lemma add_tenth_half:
  "jsadd (Fin (3602879701896397 / 36028797018963968)) (Fin (1 / 2))
   = Fin (5404319552844595 / 9007199254740992)"
  unfolding jsadd.simps
  by (subst fl_normal [where e = "- 1"]) (simp_all add: fl_eval)

lemmas decimal_sums = parseFloat_decimals add_zero_tenth add_zero_fifth add_tenth_fifth
  add_tenth_fifth_three_tenths add_fifth_three_tenths add_tenth_half

text \<open>Printing: the recursion of \<open>shortestDigits\<close> on a numeral, and the digits.\<close>

lemma shortestDigits_numeral:
  "shortestDigits q n (numeral v) k =
     (let p = pow10 (n - k);
          lo = \<lfloor>q / p\<rfloor>;
          hi = lo + 1;
          okLo = (fl (of_int lo * p) = Fin q);
          okHi = (fl (of_int hi * p) = Fin q)
      in if okLo \<and> okHi then
           (if q - of_int lo * p \<le> of_int hi * p - q then (lo, k) else (hi, k))
         else if okLo then (lo, k)
         else if okHi then (hi, k)
         else shortestDigits q n (pred_numeral v) (k + 1))"
  by (simp only: numeral_eq_Suc shortestDigits.simps)

lemma digit_chars:
  "char_of (48 :: int) = CHR ''0''" "char_of (49 :: int) = CHR ''1''"
  "char_of (50 :: int) = CHR ''2''" "char_of (51 :: int) = CHR ''3''"
  "char_of (52 :: int) = CHR ''4''" "char_of (53 :: int) = CHR ''5''"
  "char_of (54 :: int) = CHR ''6''" "char_of (55 :: int) = CHR ''7''"
  "char_of (56 :: int) = CHR ''8''" "char_of (57 :: int) = CHR ''9''"
  by (simp_all add: char_of_def)

lemmas print_simps = positiveToString_def decimalExponent_def countDigits.simps intToString.simps
  shortestDigits_numeral pow10_def Let_def fl_of_int digit_chars eval_nat_numeral

lemma sales_strings:
  "numberToString (Fin 100) = ''100''" "numberToString (Fin 150) = ''150''"
  "numberToString (Fin 200) = ''200''" "numberToString (Fin 120) = ''120''"
  "numberToString (Fin 90) = ''90''" "numberToString (Fin 160) = ''160''"
  by (simp_all add: print_simps)

section \<open>The aggregator\<close>

text \<open>
  C7. On an empty record subset the kinds that otherwise return text, \<^verbatim>\<open>first\<close>, \<^verbatim>\<open>last\<close>
  and \<^verbatim>\<open>listUnique\<close>, return the number \<open>0\<close>, which is neither the empty string nor the
  empty list.
\<close>

theorem aggregate_empty_string_kinds:
  "aggregate P [] field First = RNum (Fin 0)
   \<and> aggregate P [] field Last = RNum (Fin 0)
   \<and> aggregate P [] field ListUnique = RNum (Fin 0)
   \<and> RNum (Fin 0) \<noteq> RStr [] \<and> RNum (Fin 0) \<noteq> RList []"
  by (simp add: aggregate_def)

lemma fieldValues_all_nullish:
  "list_all (\<lambda>item. getField item field = Null \<or> getField item field = Undefined) data
   \<Longrightarrow> fieldValues data field = []"
  by (induction data) (auto simp: fieldValues_def)

lemma aggregate_First_zero_iff: "(aggregate P d field First = RNum (Fin 0)) = (d = [])"
  by (simp add: aggregate_def Let_def)

lemma aggregate_Last_zero_iff: "(aggregate P d field Last = RNum (Fin 0)) = (d = [])"
  by (simp add: aggregate_def Let_def)

text \<open>
  C10. On a record subset that is not empty and in which every record has \<^verbatim>\<open>null\<close> or
  \<^verbatim>\<open>undefined\<close> at the field, \<^verbatim>\<open>first\<close> and \<^verbatim>\<open>last\<close> return the empty string. They return
  the number \<open>0\<close> exactly when the subset itself is empty.
\<close>

theorem first_last_all_nullish:
  assumes "data \<noteq> []"
    and "list_all (\<lambda>item. getField item field = Null \<or> getField item field = Undefined) data"
  shows "aggregate P data field First = RStr [] \<and> aggregate P data field Last = RStr []
         \<and> (\<forall>d. (aggregate P d field First = RNum (Fin 0)) = (d = []))
         \<and> (\<forall>d. (aggregate P d field Last = RNum (Fin 0)) = (d = []))"
  using assms
  by (simp add: aggregate_def [of P data] Let_def fieldValues_all_nullish arrayGet_def
      aggregate_First_zero_iff aggregate_Last_zero_iff)

theorem first_last_all_nullish_witness:
  "[[(''text'', Null)], [(''other'', Str ''x'')]] \<noteq> ([] :: DataItem list)
   \<and> list_all (\<lambda>item. getField item ''text'' = Null \<or> getField item ''text'' = Undefined)
        [[(''text'', Null)], [(''other'', Str ''x'')]]
   \<and> aggregate exampleHost [[(''text'', Null)], [(''other'', Str ''x'')]] ''text'' First = RStr []
   \<and> aggregate exampleHost [[(''text'', Null)], [(''other'', Str ''x'')]] ''text'' Last = RStr []"
proof -
  have h1: "[[(''text'', Null)], [(''other'', Str ''x'')]] \<noteq> ([] :: DataItem list)" by simp
  have h2: "list_all (\<lambda>item. getField item ''text'' = Null \<or> getField item ''text'' = Undefined)
        [[(''text'', Null)], [(''other'', Str ''x'')]]"
    by (simp add: getField_def)
  show ?thesis using h1 h2 first_last_all_nullish [OF h1 h2, of exampleHost] by simp
qed

lemma foldl_jsadd_integerSumFrom:
  "foldl jsadd acc (numericValues js_parseInt (fieldValues data field)) = integerSumFrom acc data field"
  by (induction data arbitrary: acc) (auto simp: numericValues_def fieldValues_def Let_def)

lemma parseInt_20_9: "js_parseInt ''20.9'' = Fin 20"
  by (simp add: parse_simps)

lemma parseInt_10_9: "js_parseInt ''10.9'' = Fin 10"
  by (simp add: parse_simps)

lemma parseFloat_20_9: "js_parseFloat ''20.9'' = Fin (2941413506626355 / 140737488355328)"
  unfolding js_parseFloat_def
  apply (simp add: parse_simps)
  apply (subst fl_normal [where e = 4])
  apply (simp_all add: fl_eval)
  done

lemma parseFloat_10_9: "js_parseFloat ''10.9'' = Fin (6136154492292301 / 562949953421312)"
  unfolding js_parseFloat_def
  apply (simp add: parse_simps)
  apply (subst fl_normal [where e = 3])
  apply (simp_all add: fl_eval)
  done

lemma add_zero_20_9:
  "jsadd (Fin 0) (Fin (2941413506626355 / 140737488355328)) = Fin (2941413506626355 / 140737488355328)"
  unfolding jsadd.simps
  by (subst fl_normal [where e = 4]) (simp_all add: fl_eval)

lemma add_20_9_10_9:
  "jsadd (Fin (2941413506626355 / 140737488355328)) (Fin (6136154492292301 / 562949953421312))
   = Fin (2237726064849715 / 70368744177664)"
  unfolding jsadd.simps
  by (subst fl_normal [where e = 4]) (simp_all add: fl_eval)

text \<open>
  C8. \<^verbatim>\<open>integerSum\<close> is the sum, record by record, of the integer parse of each value that
  is neither \<^verbatim>\<open>null\<close> nor \<^verbatim>\<open>undefined\<close>, a failed parse being discarded. The value
  \<^verbatim>\<open>"20.9"\<close> parses to \<open>20\<close> and adds exactly \<open>20\<close>; the two values \<^verbatim>\<open>"20.9"\<close> and
  \<^verbatim>\<open>"10.9"\<close> give \<open>30\<close>, where their \<^verbatim>\<open>sum\<close> is \<open>31.799999999999997\<close>, of integer part
  \<open>31\<close>, and rounding each would give \<open>32\<close>.
\<close>

theorem integerSum_per_value:
  "aggregate P data field IntegerSum = RNum (integerSumFrom (Fin 0) data field)
   \<and> js_parseInt (js_String (Str ''20.9'')) = Fin 20
   \<and> integerSumFrom acc (((field, Str ''20.9'') # others) # rest) field
       = integerSumFrom (jsadd acc (Fin 20)) rest field
   \<and> aggregate P [[(field, Str ''20.9'')], [(field, Str ''10.9'')]] field IntegerSum = RNum (Fin 30)
   \<and> (\<exists>s. aggregate P [[(field, Str ''20.9'')], [(field, Str ''10.9'')]] field Sum = RNum (Fin s)
            \<and> \<lfloor>s\<rfloor> = 31)"
proof (intro conjI)
  show "aggregate P data field IntegerSum = RNum (integerSumFrom (Fin 0) data field)"
    by (cases data) (simp_all add: aggregate_def sumReduce_def foldl_jsadd_integerSumFrom)
  show "js_parseInt (js_String (Str ''20.9'')) = Fin 20"
    by (simp add: parseInt_20_9)
  show "integerSumFrom acc (((field, Str ''20.9'') # others) # rest) field
       = integerSumFrom (jsadd acc (Fin 20)) rest field"
    by (simp add: getField_def parseInt_20_9 isNaN_def)
  show "aggregate P [[(field, Str ''20.9'')], [(field, Str ''10.9'')]] field IntegerSum = RNum (Fin 30)"
    by (simp add: aggregate_def fieldValues_def getField_def numericValues_def sumReduce_def
        isNaN_def parseInt_20_9 parseInt_10_9)
  have "aggregate P [[(field, Str ''20.9'')], [(field, Str ''10.9'')]] field Sum
        = RNum (Fin (2237726064849715 / 70368744177664))"
    by (simp add: aggregate_def fieldValues_def getField_def numericValues_def sumReduce_def
        isNaN_def parseFloat_20_9 parseFloat_10_9 add_zero_20_9 add_20_9_10_9 del: jsadd.simps)
  moreover have "\<lfloor>2237726064849715 / 70368744177664 :: rat\<rfloor> = 31" by simp
  ultimately show "\<exists>s. aggregate P [[(field, Str ''20.9'')], [(field, Str ''10.9'')]] field Sum
                        = RNum (Fin s) \<and> \<lfloor>s\<rfloor> = 31"
    by blast
qed

section \<open>Key derivation\<close>

subsection \<open>The sort returns a rearrangement\<close>

lemma mset_insertSorted: "mset (insertSorted cmp x ys) = add_mset x (mset ys)"
  by (induction ys) auto

lemma mset_stableSort: "mset (stableSort cmp xs) = mset xs"
  by (induction xs) (auto simp: stableSort_def mset_insertSorted)

lemma mset_arrangeBy: "mset (arrangeBy rank xs) = mset xs"
proof -
  have z: "map snd (zip (map rank [0..<length xs]) xs) = xs"
    by (simp add: map_snd_zip)
  have "mset (map snd (sort_key fst (zip (map rank [0..<length xs]) xs)))
        = image_mset snd (mset (sort_key fst (zip (map rank [0..<length xs]) xs)))"
    by (simp only: mset_map)
  also have "\<dots> = image_mset snd (mset (zip (map rank [0..<length xs]) xs))"
    by (simp only: mset_sort)
  also have "\<dots> = mset (map snd (zip (map rank [0..<length xs]) xs))"
    by (simp only: mset_map)
  also have "\<dots> = mset xs"
    by (simp only: z)
  finally show ?thesis by (simp only: arrangeBy_def)
qed

lemma mset_Array_sort: "mset (Array_sort rank cmp xs) = mset xs"
  by (simp add: Array_sort_def mset_stableSort mset_arrangeBy)

lemma set_Array_sort [simp]: "set (Array_sort rank cmp xs) = set xs"
  using mset_Array_sort [of rank cmp xs] by (metis set_mset_mset)

lemma distinct_Array_sort [simp]: "distinct (Array_sort rank cmp xs) = distinct xs"
  using mset_Array_sort [of rank cmp xs] by (metis mset_eq_imp_distinct_iff)

lemma length_Array_sort [simp]: "length (Array_sort rank cmp xs) = length xs"
  using mset_Array_sort [of rank cmp xs] by (metis size_mset)

lemma Array_sort_Nil [simp]: "Array_sort rank cmp [] = []"
  by (simp add: Array_sort_def stableSort_def arrangeBy_def)

lemma Array_sort_consistent:
  "consistentComparator (sortCompare cmp) (set xs) \<Longrightarrow> Array_sort rank cmp xs = stableSort cmp xs"
  by (simp add: Array_sort_def)

lemma set_insertSorted [simp]: "set (insertSorted cmp x ys) = insert x (set ys)"
  using mset_insertSorted [of cmp x ys] by (metis set_mset_mset set_mset_add_mset_insert)

lemma set_stableSort [simp]: "set (stableSort cmp xs) = set xs"
  using mset_stableSort [of cmp xs] by (metis set_mset_mset)


subsection \<open>The stable sort under a consistent comparator\<close>

text \<open>Of two members a consistent comparator finds exactly one of less, equal and
  greater; less and greater mirror each other; and the rank of a member, the number of
  members strictly before it, orders the members as the comparator does. The stable sort
  is therefore the library's insertion sort by rank: its result is in the order of the
  comparator, keeps members that compare equal in their order in the array, and is the
  only rearrangement of the array that does both.\<close>

lemma jsnum_trichotomy:
  "x \<noteq> NaN \<Longrightarrow> (jsless x (Fin 0) \<and> x \<noteq> Fin 0 \<and> \<not> jsless (Fin 0) x)
     \<or> (\<not> jsless x (Fin 0) \<and> x = Fin 0 \<and> \<not> jsless (Fin 0) x)
     \<or> (\<not> jsless x (Fin 0) \<and> x \<noteq> Fin 0 \<and> jsless (Fin 0) x)"
  by (cases x) auto

lemma consistentD:
  assumes "consistentComparator cmp S"
  shows "\<forall>a\<in>S. \<forall>b\<in>S. cmp a b \<noteq> NaN"
    and "\<forall>a\<in>S. cmp a a = Fin 0"
    and "\<forall>a\<in>S. \<forall>b\<in>S. cmp a b = Fin 0 \<longrightarrow> cmp b a = Fin 0"
    and "\<forall>a\<in>S. \<forall>b\<in>S. \<forall>c\<in>S. cmp a b = Fin 0 \<longrightarrow> cmp b c = Fin 0 \<longrightarrow> cmp a c = Fin 0"
    and "\<forall>a\<in>S. \<forall>b\<in>S. \<forall>c\<in>S.
            jsless (cmp a b) (Fin 0) \<longrightarrow> jsless (cmp b c) (Fin 0) \<longrightarrow> jsless (cmp a c) (Fin 0)"
    and "\<forall>a\<in>S. \<forall>b\<in>S. \<forall>c\<in>S.
            jsless (Fin 0) (cmp a b) \<longrightarrow> jsless (Fin 0) (cmp b c) \<longrightarrow> jsless (Fin 0) (cmp a c)"
  using assms unfolding consistentComparator_def by blast+

lemma consistent_notNaN:
  "consistentComparator cmp S \<Longrightarrow> a \<in> S \<Longrightarrow> b \<in> S \<Longrightarrow> cmp a b \<noteq> NaN"
  using consistentD(1) by blast

lemma consistent_refl: "consistentComparator cmp S \<Longrightarrow> a \<in> S \<Longrightarrow> cmp a a = Fin 0"
  using consistentD(2) by blast

lemma consistent_sym:
  "consistentComparator cmp S \<Longrightarrow> a \<in> S \<Longrightarrow> b \<in> S \<Longrightarrow> cmp a b = Fin 0 \<Longrightarrow> cmp b a = Fin 0"
  using consistentD(3) by blast

lemma consistent_equal_trans:
  "consistentComparator cmp S \<Longrightarrow> a \<in> S \<Longrightarrow> b \<in> S \<Longrightarrow> c \<in> S
   \<Longrightarrow> cmp a b = Fin 0 \<Longrightarrow> cmp b c = Fin 0 \<Longrightarrow> cmp a c = Fin 0"
  using consistentD(4) by blast

lemma consistent_less_trans:
  "consistentComparator cmp S \<Longrightarrow> a \<in> S \<Longrightarrow> b \<in> S \<Longrightarrow> c \<in> S
   \<Longrightarrow> jsless (cmp a b) (Fin 0) \<Longrightarrow> jsless (cmp b c) (Fin 0) \<Longrightarrow> jsless (cmp a c) (Fin 0)"
  using consistentD(5) by blast

lemma consistent_greater_trans:
  "consistentComparator cmp S \<Longrightarrow> a \<in> S \<Longrightarrow> b \<in> S \<Longrightarrow> c \<in> S
   \<Longrightarrow> jsless (Fin 0) (cmp a b) \<Longrightarrow> jsless (Fin 0) (cmp b c) \<Longrightarrow> jsless (Fin 0) (cmp a c)"
  using consistentD(6) by blast

lemma consistent_less_greater:
  assumes c: "consistentComparator cmp S" and a: "a \<in> S" and b: "b \<in> S"
  shows "jsless (cmp a b) (Fin 0) \<longleftrightarrow> jsless (Fin 0) (cmp b a)"
proof
  assume l: "jsless (cmp a b) (Fin 0)"
  have n: "cmp b a \<noteq> NaN" by (rule consistent_notNaN [OF c b a])
  have r: "cmp a a = Fin 0" by (rule consistent_refl [OF c a])
  show "jsless (Fin 0) (cmp b a)"
  proof (rule ccontr)
    assume ng: "\<not> jsless (Fin 0) (cmp b a)"
    from jsnum_trichotomy [OF n] ng
    consider "jsless (cmp b a) (Fin 0)" | "cmp b a = Fin 0" by blast
    then show False
    proof cases
      case 1
      have "jsless (cmp a a) (Fin 0)" by (rule consistent_less_trans [OF c a b a l 1])
      with r show False by simp
    next
      case 2
      have "cmp a b = Fin 0" by (rule consistent_sym [OF c b a 2])
      with l show False by simp
    qed
  qed
next
  assume g: "jsless (Fin 0) (cmp b a)"
  have n: "cmp a b \<noteq> NaN" by (rule consistent_notNaN [OF c a b])
  have r: "cmp b b = Fin 0" by (rule consistent_refl [OF c b])
  show "jsless (cmp a b) (Fin 0)"
  proof (rule ccontr)
    assume nl: "\<not> jsless (cmp a b) (Fin 0)"
    from jsnum_trichotomy [OF n] nl
    consider "jsless (Fin 0) (cmp a b)" | "cmp a b = Fin 0" by blast
    then show False
    proof cases
      case 1
      have "jsless (Fin 0) (cmp b b)" by (rule consistent_greater_trans [OF c b a b g 1])
      with r show False by simp
    next
      case 2
      have "cmp b a = Fin 0" by (rule consistent_sym [OF c a b 2])
      with g show False by simp
    qed
  qed
qed

lemma consistent_less_equal:
  assumes c: "consistentComparator cmp S" and z: "z \<in> S" and x: "x \<in> S" and y: "y \<in> S"
    and zx: "jsless (cmp z x) (Fin 0)" and xy: "cmp x y = Fin 0"
  shows "jsless (cmp z y) (Fin 0)"
proof (rule ccontr)
  assume nl: "\<not> jsless (cmp z y) (Fin 0)"
  have n: "cmp z y \<noteq> NaN" by (rule consistent_notNaN [OF c z y])
  from jsnum_trichotomy [OF n] nl
  consider "jsless (Fin 0) (cmp z y)" | "cmp z y = Fin 0" by blast
  then show False
  proof cases
    case 1
    then have yz: "jsless (cmp y z) (Fin 0)"
      using consistent_less_greater [OF c y z] by simp
    have "jsless (cmp y x) (Fin 0)" by (rule consistent_less_trans [OF c y z x yz zx])
    moreover have "cmp y x = Fin 0" by (rule consistent_sym [OF c x y xy])
    ultimately show False by simp
  next
    case 2
    have yz: "cmp y z = Fin 0" by (rule consistent_sym [OF c z y 2])
    have "cmp x z = Fin 0" by (rule consistent_equal_trans [OF c x y z xy yz])
    then have "cmp z x = Fin 0" by (rule consistent_sym [OF c x z])
    with zx show False by simp
  qed
qed

lemma rankIn_greater:
  assumes c: "consistentComparator cmp S" and f: "finite S" and x: "x \<in> S" and y: "y \<in> S"
  shows "jsless (Fin 0) (cmp x y) \<longleftrightarrow> rankIn cmp S y < rankIn cmp S x"
proof
  assume g: "jsless (Fin 0) (cmp x y)"
  then have yx: "jsless (cmp y x) (Fin 0)"
    using consistent_less_greater [OF c y x] by simp
  have sub: "{z \<in> S. jsless (cmp z y) (Fin 0)} \<subseteq> {z \<in> S. jsless (cmp z x) (Fin 0)}"
  proof
    fix z assume "z \<in> {z \<in> S. jsless (cmp z y) (Fin 0)}"
    then have z: "z \<in> S" and zy: "jsless (cmp z y) (Fin 0)" by simp_all
    have "jsless (cmp z x) (Fin 0)" by (rule consistent_less_trans [OF c z y x zy yx])
    with z show "z \<in> {z \<in> S. jsless (cmp z x) (Fin 0)}" by simp
  qed
  have "cmp y y = Fin 0" by (rule consistent_refl [OF c y])
  then have "y \<notin> {z \<in> S. jsless (cmp z y) (Fin 0)}" by simp
  moreover have "y \<in> {z \<in> S. jsless (cmp z x) (Fin 0)}" using yx y by simp
  ultimately have "{z \<in> S. jsless (cmp z y) (Fin 0)} \<subset> {z \<in> S. jsless (cmp z x) (Fin 0)}"
    using sub by blast
  moreover have "finite {z \<in> S. jsless (cmp z x) (Fin 0)}" using f by simp
  ultimately show "rankIn cmp S y < rankIn cmp S x"
    unfolding rankIn_def by (rule psubset_card_mono [rotated])
next
  assume r: "rankIn cmp S y < rankIn cmp S x"
  show "jsless (Fin 0) (cmp x y)"
  proof (rule ccontr)
    assume ng: "\<not> jsless (Fin 0) (cmp x y)"
    have n: "cmp x y \<noteq> NaN" by (rule consistent_notNaN [OF c x y])
    have sub: "{z \<in> S. jsless (cmp z x) (Fin 0)} \<subseteq> {z \<in> S. jsless (cmp z y) (Fin 0)}"
    proof
      fix z assume "z \<in> {z \<in> S. jsless (cmp z x) (Fin 0)}"
      then have z: "z \<in> S" and zx: "jsless (cmp z x) (Fin 0)" by simp_all
      from jsnum_trichotomy [OF n] ng
      consider "jsless (cmp x y) (Fin 0)" | "cmp x y = Fin 0" by blast
      then have "jsless (cmp z y) (Fin 0)"
      proof cases
        case 1
        show ?thesis by (rule consistent_less_trans [OF c z x y zx 1])
      next
        case 2
        show ?thesis by (rule consistent_less_equal [OF c z x y zx 2])
      qed
      with z show "z \<in> {z \<in> S. jsless (cmp z y) (Fin 0)}" by simp
    qed
    have "finite {z \<in> S. jsless (cmp z y) (Fin 0)}" using f by simp
    then have "rankIn cmp S x \<le> rankIn cmp S y"
      unfolding rankIn_def using sub by (rule card_mono)
    with r show False by simp
  qed
qed

lemma rankIn_inOrder:
  assumes "consistentComparator cmp S" "finite S" "x \<in> S" "y \<in> S"
  shows "inOrder cmp x y \<longleftrightarrow> rankIn cmp S x \<le> rankIn cmp S y"
  using rankIn_greater [OF assms] by (auto simp: inOrder_def)

lemma rankIn_equal:
  assumes c: "consistentComparator cmp S" and f: "finite S" and x: "x \<in> S" and y: "y \<in> S"
  shows "cmp x y = Fin 0 \<longleftrightarrow> rankIn cmp S x = rankIn cmp S y"
proof -
  have n: "cmp x y \<noteq> NaN" by (rule consistent_notNaN [OF c x y])
  have "cmp x y = Fin 0 \<longleftrightarrow> \<not> jsless (cmp x y) (Fin 0) \<and> \<not> jsless (Fin 0) (cmp x y)"
    using jsnum_trichotomy [OF n] by blast
  also have "\<dots> \<longleftrightarrow> \<not> jsless (Fin 0) (cmp y x) \<and> \<not> jsless (Fin 0) (cmp x y)"
    using consistent_less_greater [OF c x y] by simp
  also have "\<dots> \<longleftrightarrow> rankIn cmp S x = rankIn cmp S y"
    using rankIn_greater [OF c f x y] rankIn_greater [OF c f y x] by auto
  finally show ?thesis .
qed

lemma insertSorted_insort_key:
  assumes c: "consistentComparator cmp S" and f: "finite S" and x: "x \<in> S" and ys: "set ys \<subseteq> S"
  shows "insertSorted cmp x ys = insort_key (rankIn cmp S) x ys"
  using ys
proof (induction ys)
  case Nil
  then show ?case by simp
next
  case (Cons y ys)
  then have y: "y \<in> S" and ih: "insertSorted cmp x ys = insort_key (rankIn cmp S) x ys" by simp_all
  show ?case
    using rankIn_greater [OF c f x y] by (simp add: ih not_le)
qed

lemma stableSort_sort_key:
  assumes c: "consistentComparator cmp S" and f: "finite S" and xs: "set xs \<subseteq> S"
  shows "stableSort cmp xs = sort_key (rankIn cmp S) xs"
  using xs
proof (induction xs)
  case Nil
  then show ?case by (simp add: stableSort_def)
next
  case (Cons x xs)
  then have x: "x \<in> S" and ih: "stableSort cmp xs = sort_key (rankIn cmp S) xs" by simp_all
  have s: "set (sort_key (rankIn cmp S) xs) \<subseteq> S" using Cons.prems by simp
  have "stableSort cmp (x # xs) = insertSorted cmp x (stableSort cmp xs)"
    by (simp add: stableSort_def)
  also have "\<dots> = insertSorted cmp x (sort_key (rankIn cmp S) xs)" by (simp only: ih)
  also have "\<dots> = insort_key (rankIn cmp S) x (sort_key (rankIn cmp S) xs)"
    by (rule insertSorted_insort_key [OF c f x s])
  finally show ?case by simp
qed

lemma sorted_wrt_rankIn:
  assumes c: "consistentComparator cmp S" and f: "finite S" and ys: "set ys \<subseteq> S"
  shows "sorted_wrt (inOrder cmp) ys \<longleftrightarrow> sorted (map (rankIn cmp S) ys)"
  using ys
proof (induction ys)
  case Nil
  then show ?case by simp
next
  case (Cons y ys)
  then have y: "y \<in> S" and s: "set ys \<subseteq> S"
    and ih: "sorted_wrt (inOrder cmp) ys \<longleftrightarrow> sorted (map (rankIn cmp S) ys)" by simp_all
  have "(\<forall>z\<in>set ys. inOrder cmp y z) \<longleftrightarrow> (\<forall>z\<in>set ys. rankIn cmp S y \<le> rankIn cmp S z)"
    using rankIn_inOrder [OF c f y] s by blast
  then show ?case by (simp add: ih)
qed


lemma filter_equal_rankIn:
  assumes c: "consistentComparator cmp (set xs)" and x: "x \<in> set xs" and zs: "set zs \<subseteq> set xs"
  shows "filter (\<lambda>y. cmp x y = Fin 0) zs
         = filter (\<lambda>y. rankIn cmp (set xs) x = rankIn cmp (set xs) y) zs"
proof (rule filter_cong [OF refl])
  fix y assume "y \<in> set zs"
  then have y: "y \<in> set xs" using zs by blast
  show "(cmp x y = Fin 0) = (rankIn cmp (set xs) x = rankIn cmp (set xs) y)"
    by (rule rankIn_equal [OF c _ x y]) simp
qed


lemma stableSort_unique:
  assumes c: "consistentComparator cmp (set xs)"
    and m: "mset ys = mset xs"
    and s: "sorted_wrt (inOrder cmp) ys"
    and st: "\<forall>x\<in>set xs. filter (\<lambda>y. cmp x y = Fin 0) ys = filter (\<lambda>y. cmp x y = Fin 0) xs"
  shows "ys = stableSort cmp xs"
proof -
  let ?k = "rankIn cmp (set xs)"
  have sy: "set ys = set xs" using m by (metis set_mset_mset)
  have "sort_key ?k xs = ys"
  proof (rule properties_for_sort_key)
    show "mset ys = mset xs" by (rule m)
    show "filter (\<lambda>x. ?k k = ?k x) ys = filter (\<lambda>x. ?k k = ?k x) xs" if "k \<in> set ys" for k
    proof -
      from that have k: "k \<in> set xs" using sy by simp
      show ?thesis
        using st k filter_equal_rankIn [OF c k, of xs] filter_equal_rankIn [OF c k, of ys] sy
        by simp
    qed
    show "sorted (map ?k ys)"
      using s sorted_wrt_rankIn [OF c, of ys] sy by simp
  qed
  moreover have "stableSort cmp xs = sort_key ?k xs"
    by (rule stableSort_sort_key [OF c]) simp_all
  ultimately show ?thesis by simp
qed

text \<open>The stable sort does not tell a comparator from the comparison that the sort reads
  of it.\<close>

lemma inOrder_sortCompare [simp]: "inOrder (sortCompare cmp) x y = inOrder cmp x y"
  by (simp add: inOrder_def sortCompare_def)

lemma insertSorted_sortCompare: "insertSorted (sortCompare cmp) x ys = insertSorted cmp x ys"
  by (induction ys) (simp_all add: sortCompare_def)

lemma stableSort_sortCompare: "stableSort (sortCompare cmp) xs = stableSort cmp xs"
  by (induction xs) (simp_all add: stableSort_def insertSorted_sortCompare)



lemma Array_sort_unique:
  assumes c: "consistentComparator (sortCompare cmp) (set xs)"
    and m: "mset ys = mset xs"
    and s: "sorted_wrt (inOrder cmp) ys"
    and st: "\<forall>x\<in>set xs. filter (\<lambda>y. sortCompare cmp x y = Fin 0) ys
                          = filter (\<lambda>y. sortCompare cmp x y = Fin 0) xs"
  shows "ys = Array_sort rank cmp xs"
proof -
  from s have "sorted_wrt (inOrder (sortCompare cmp)) ys"
    by (simp add: inOrder_sortCompare [abs_def])
  then have "ys = stableSort (sortCompare cmp) xs"
    by (rule stableSort_unique [OF c m _ st])
  then show ?thesis
    by (simp only: stableSort_sortCompare Array_sort_consistent [OF c])
qed

lemma insertSorted_cong:
  assumes "\<forall>b\<in>set ys. cmp x b = cmp' x b"
  shows "insertSorted cmp x ys = insertSorted cmp' x ys"
  using assms by (induction ys) simp_all

lemma stableSort_cong:
  assumes "\<forall>a\<in>set xs. \<forall>b\<in>set xs. cmp a b = cmp' a b"
  shows "stableSort cmp xs = stableSort cmp' xs"
proof -
  have "set ys \<subseteq> set xs \<Longrightarrow> stableSort cmp ys = stableSort cmp' ys" for ys
  proof (induction ys)
    case Nil
    then show ?case by (simp add: stableSort_def)
  next
    case (Cons y ys)
    then have ih: "stableSort cmp ys = stableSort cmp' ys" and y: "y \<in> set xs"
      and s: "set ys \<subseteq> set xs" by simp_all
    have "\<forall>b\<in>set (stableSort cmp' ys). cmp y b = cmp' y b"
      using assms y s by auto
    then have "insertSorted cmp y (stableSort cmp' ys) = insertSorted cmp' y (stableSort cmp' ys)"
      by (rule insertSorted_cong)
    then show ?case by (simp add: stableSort_def ih [unfolded stableSort_def])
  qed
  then show ?thesis by simp
qed

subsection \<open>Distinct values and their combinations\<close>

lemma Set_add_fold:
  "distinct acc \<Longrightarrow>
   distinct (foldl (\<lambda>vs item. Set_add vs (h item)) acc data)
   \<and> set (foldl (\<lambda>vs item. Set_add vs (h item)) acc data) = set acc \<union> h ` set data"
  by (induction data arbitrary: acc) (auto simp: Set_add_def)

lemma distinct_distinctValues [simp]: "distinct (distinctValues data field)"
  using Set_add_fold [of "[]" "\<lambda>item. coerced item field" data] by (simp add: distinctValues_def)

lemma set_distinctValues [simp]:
  "set (distinctValues data field) = (\<lambda>item. coerced item field) ` set data"
  using Set_add_fold [of "[]" "\<lambda>item. coerced item field" data] by (simp add: distinctValues_def)

lemma distinctValues_Nil [simp]: "distinctValues [] field = []"
  by (simp add: distinctValues_def)


lemma foldl_map_upd:
  "foldl (\<lambda>m f. m(f \<mapsto> g f)) m0 fs = (\<lambda>x. if x \<in> set fs then Some (g x) else m0 x)"
  by (induction fs arbitrary: m0) (auto simp: fun_eq_iff)

lemma collectUniqueValues_apply:
  "collectUniqueValues data fs f = (if f \<in> set fs then Some (distinctValues data f) else None)"
  by (simp add: collectUniqueValues_def foldl_map_upd)

lemma generateCombinations_product:
  assumes "\<forall>f \<in> set fs. m f = Some (g f)"
  shows "generateCombinations P fs m i
         = product_lists (map (\<lambda>f. Array_sort (stringOrder P (g f)) (smartSort P) (g f)) (drop i fs))"
  using assms
proof (induction P fs m i rule: generateCombinations.induct)
  case (1 P fs m i)
  show ?case
  proof (cases "length fs \<le> i")
    case True
    then show ?thesis by (simp add: generateCombinations.simps [of P fs m i])
  next
    case False
    then have d: "drop i fs = fs ! i # drop (Suc i) fs"
      by (simp add: Cons_nth_drop_Suc)
    have mi: "m (fs ! i) = Some (g (fs ! i))" using False "1.prems" by simp
    have ih: "generateCombinations P fs m (Suc i)
              = product_lists (map (\<lambda>f. Array_sort (stringOrder P (g f)) (smartSort P) (g f))
                                 (drop (Suc i) fs))"
      using "1.IH" [OF False refl refl refl] "1.prems" by simp
    show ?thesis
      using False by (simp add: generateCombinations.simps [of P fs m i] Let_def d mi ih)
  qed
qed

lemma getNestedKeys_product:
  "getNestedKeys P data fs = product_lists (map (sortedValues P data) fs)"
proof (cases "fs = []")
  case True
  then show ?thesis by (simp add: getNestedKeys_def)
next
  case False
  have "generateCombinations P fs (collectUniqueValues data fs) 0
        = product_lists (map (\<lambda>f. Array_sort (stringOrder P (distinctValues data f)) (smartSort P)
                                      (distinctValues data f)) (drop 0 fs))"
    by (rule generateCombinations_product) (simp add: collectUniqueValues_apply)
  with False show ?thesis by (simp add: getNestedKeys_def sortedValues_def [abs_def])
qed

lemma sortedValues_Nil [simp]: "sortedValues P [] f = []"
  by (simp add: sortedValues_def)

lemma getNestedKeys_empty_data:
  "getNestedKeys P [] fs = (if fs = [] then [[]] else [])"
  by (cases fs) (simp_all add: getNestedKeys_product)


lemma set_sortedValues [simp]:
  "set (sortedValues P data f) = (\<lambda>item. coerced item f) ` set data"
  by (simp add: sortedValues_def)

lemma distinct_sortedValues [simp]: "distinct (sortedValues P data f)"
  by (simp add: sortedValues_def)

lemma sortedValues_consistent:
  "consistentComparator (sortCompare (smartSort P)) (set (distinctValues data f))
   \<Longrightarrow> sortedValues P data f = stableSort (smartSort P) (distinctValues data f)"
  by (simp only: sortedValues_def Array_sort_consistent)

lemma set_getNestedKeys:
  "set (getNestedKeys P data fs)
   = {ks. list_all2 (\<lambda>k f. k \<in> (\<lambda>item. coerced item f) ` set data) ks fs}"
  by (simp add: getNestedKeys_product product_lists_set list_all2_map2)

lemma distinct_getNestedKeys [simp]: "distinct (getNestedKeys P data fs)"
  by (simp add: getNestedKeys_product distinct_product_lists)

lemma length_getNestedKeys: "ks \<in> set (getNestedKeys P data fs) \<Longrightarrow> length ks = length fs"
  by (auto simp: getNestedKeys_product dest: in_set_product_lists_length)

lemma collectValidated_find:
  "collectValidated P data ft L m fs
   = (case List.find (\<lambda>f. jsless L (ofNat (length (distinctValues data f))) \<and> ft \<noteq> None) fs of
        None \<Rightarrow> Inr (foldl (\<lambda>m f. m(f \<mapsto> distinctValues data f)) m fs)
      | Some f \<Rightarrow> Inl (PivotValidationError
                         (validationMessage P f (length (distinctValues data f))) f (the ft)
                         (length (distinctValues data f))))"
  by (induction fs arbitrary: m) (auto simp: Let_def split: option.splits)

lemma getNestedKeysAsync_find:
  "getNestedKeysAsync P data fs signal ft L
   = (case List.find (\<lambda>f. jsless L (ofNat (length (distinctValues data f))) \<and> ft \<noteq> None) fs of
        None \<Rightarrow> Inr (getNestedKeys P data fs)
      | Some f \<Rightarrow> Inl (PivotValidationError
                         (validationMessage P f (length (distinctValues data f))) f (the ft)
                         (length (distinctValues data f))))"
  by (cases "fs = []")
     (simp_all add: getNestedKeysAsync_def getNestedKeys_def collectValidated_find
       collectUniqueValues_def split: option.splits)



subsection \<open>The example host\<close>

text \<open>The collation of the example host is a consistent comparator, and so is the sort
  comparator on values none of which parses as a number.\<close>

lemma codeUnitCompare_refl [simp]: "codeUnitCompare a a = 0"
  by (induction a) auto

lemma codeUnitCompare_zero: "codeUnitCompare a b = 0 \<Longrightarrow> a = b"
  by (induction a b rule: codeUnitCompare.induct) (auto split: if_splits)

lemma codeUnitCompare_swap: "codeUnitCompare a b < 0 \<longleftrightarrow> 0 < codeUnitCompare b a"
proof (induction a b rule: codeUnitCompare.induct)
  case (4 a as b bs)
  have "a \<noteq> b \<Longrightarrow> (of_char a :: nat) \<noteq> of_char b" by simp
  with 4 show ?case by (auto simp: not_less)
qed simp_all

lemma codeUnitCompare_less_trans:
  "codeUnitCompare a b < 0 \<Longrightarrow> codeUnitCompare b c < 0 \<Longrightarrow> codeUnitCompare a c < 0"
proof (induction a b arbitrary: c rule: codeUnitCompare.induct)
  case 1
  then show ?case by simp
next
  case (2 b bs)
  then show ?case by (cases c) (auto split: if_splits)
next
  case (3 a as)
  then show ?case by simp
next
  case (4 a as b bs)
  show ?case
  proof (cases c)
    case Nil
    with 4 show ?thesis by simp
  next
    case (Cons d ds)
    show ?thesis
    proof (cases "a = b")
      case True
      with 4 Cons show ?thesis by (auto split: if_splits)
    next
      case ab: False
      with "4.prems"(1) have lt: "(of_char a :: nat) < of_char b" by (simp split: if_splits)
      show ?thesis
      proof (cases "b = d")
        case True
        with ab lt Cons show ?thesis by simp
      next
        case False
        with "4.prems"(2) Cons have "(of_char b :: nat) < of_char d" by (simp split: if_splits)
        with lt have "(of_char a :: nat) < of_char d" by simp
        then have "a \<noteq> d" by auto
        with \<open>(of_char a :: nat) < of_char d\<close> Cons show ?thesis by simp
      qed
    qed
  qed
qed

lemma codeUnitCompare_consistent:
  "consistentComparator (\<lambda>a b. Fin (of_int (codeUnitCompare a b))) S"
  unfolding consistentComparator_def
proof (intro conjI ballI impI)
  fix a b :: string
  show "Fin (of_int (codeUnitCompare a b)) \<noteq> NaN" by simp
next
  fix a :: string
  show "Fin (of_int (codeUnitCompare a a)) = Fin 0" by simp
next
  fix a b :: string
  assume "Fin (of_int (codeUnitCompare a b)) = Fin 0"
  then have "codeUnitCompare a b = 0" by simp
  then have "a = b" by (rule codeUnitCompare_zero)
  then show "Fin (of_int (codeUnitCompare b a)) = Fin 0" by simp
next
  fix a b c :: string
  assume "Fin (of_int (codeUnitCompare a b)) = Fin 0" "Fin (of_int (codeUnitCompare b c)) = Fin 0"
  then have "codeUnitCompare a b = 0" "codeUnitCompare b c = 0" by simp_all
  then have "a = b" "b = c" by (auto dest: codeUnitCompare_zero)
  then show "Fin (of_int (codeUnitCompare a c)) = Fin 0" by simp
next
  fix a b c :: string
  assume "jsless (Fin (of_int (codeUnitCompare a b))) (Fin 0)"
    "jsless (Fin (of_int (codeUnitCompare b c))) (Fin 0)"
  then have "codeUnitCompare a b < 0" "codeUnitCompare b c < 0" by simp_all
  then have "codeUnitCompare a c < 0" by (rule codeUnitCompare_less_trans)
  then show "jsless (Fin (of_int (codeUnitCompare a c))) (Fin 0)" by simp
next
  fix a b c :: string
  assume "jsless (Fin 0) (Fin (of_int (codeUnitCompare a b)))"
    "jsless (Fin 0) (Fin (of_int (codeUnitCompare b c)))"
  then have "0 < codeUnitCompare a b" "0 < codeUnitCompare b c" by simp_all
  then have "codeUnitCompare c b < 0" "codeUnitCompare b a < 0"
    by (simp_all add: codeUnitCompare_swap)
  then have "codeUnitCompare c a < 0" by (rule codeUnitCompare_less_trans)
  then have "0 < codeUnitCompare a c" by (simp add: codeUnitCompare_swap)
  then show "jsless (Fin 0) (Fin (of_int (codeUnitCompare a c)))" by simp
qed

lemma smartSort_text_consistent:
  assumes n: "\<forall>s\<in>S. js_parseFloat s = NaN"
  shows "consistentComparator (sortCompare (smartSort exampleHost)) S"
proof -
  let ?c = "\<lambda>a b. Fin (of_int (codeUnitCompare a b))"
  let ?s = "sortCompare (smartSort exampleHost)"
  have e: "?s a b = ?c a b" if "a \<in> S" for a b
    using that n by (simp add: sortCompare_def smartSort_def isNaN_def exampleHost_def)
  note k = codeUnitCompare_consistent [of S]
  show ?thesis
    unfolding consistentComparator_def
  proof (intro conjI ballI impI)
    fix a b assume a: "a \<in> S" and b: "b \<in> S"
    show "?s a b \<noteq> NaN" by (simp only: e [OF a]) simp
  next
    fix a assume a: "a \<in> S"
    show "?s a a = Fin 0" by (simp only: e [OF a]) simp
  next
    fix a b assume a: "a \<in> S" and b: "b \<in> S" and "?s a b = Fin 0"
    then have "?c a b = Fin 0" by (simp only: e [OF a])
    then have "?c b a = Fin 0" by (rule consistent_sym [OF k a b])
    then show "?s b a = Fin 0" by (simp only: e [OF b])
  next
    fix a b c assume a: "a \<in> S" and b: "b \<in> S" and c: "c \<in> S"
      and "?s a b = Fin 0" "?s b c = Fin 0"
    then have "?c a b = Fin 0" "?c b c = Fin 0" by (simp_all only: e [OF a] e [OF b])
    then have "?c a c = Fin 0" by (rule consistent_equal_trans [OF k a b c])
    then show "?s a c = Fin 0" by (simp only: e [OF a])
  next
    fix a b c assume a: "a \<in> S" and b: "b \<in> S" and c: "c \<in> S"
      and "jsless (?s a b) (Fin 0)" "jsless (?s b c) (Fin 0)"
    then have "jsless (?c a b) (Fin 0)" "jsless (?c b c) (Fin 0)"
      by (simp_all only: e [OF a] e [OF b])
    then have "jsless (?c a c) (Fin 0)" by (rule consistent_less_trans [OF k a b c])
    then show "jsless (?s a c) (Fin 0)" by (simp only: e [OF a])
  next
    fix a b c assume a: "a \<in> S" and b: "b \<in> S" and c: "c \<in> S"
      and "jsless (Fin 0) (?s a b)" "jsless (Fin 0) (?s b c)"
    then have "jsless (Fin 0) (?c a b)" "jsless (Fin 0) (?c b c)"
      by (simp_all only: e [OF a] e [OF b])
    then have "jsless (Fin 0) (?c a c)" by (rule consistent_greater_trans [OF k a b c])
    then show "jsless (Fin 0) (?s a c)" by (simp only: e [OF a])
  qed
qed

lemma sortedValues_text:
  assumes v: "distinctValues data f = vs" and n: "list_all (\<lambda>s. js_parseFloat s = NaN) vs"
  shows "sortedValues exampleHost data f
         = stableSort (\<lambda>a b. Fin (of_int (codeUnitCompare a b))) vs"
proof -
  from n have n': "\<forall>s\<in>set vs. js_parseFloat s = NaN" by (simp add: list_all_iff)
  have c: "consistentComparator (sortCompare (smartSort exampleHost)) (set (distinctValues data f))"
    unfolding v by (rule smartSort_text_consistent [OF n'])
  have "sortedValues exampleHost data f = stableSort (smartSort exampleHost) vs"
    using sortedValues_consistent [OF c] by (simp only: v)
  also have "\<dots> = stableSort (\<lambda>a b. Fin (of_int (codeUnitCompare a b))) vs"
    by (rule stableSort_cong) (use n' in \<open>simp add: smartSort_def isNaN_def exampleHost_def\<close>)
  finally show ?thesis .
qed

lemmas example_simps = exampleRecords_def exampleConfig_def sizeRecords_def exampleHost_def
  filterData_def distinctValues_def coerced_def getField_def Set_add_def






















section \<open>The example scenario\<close>

text \<open>The synchronous builder run on the six records of the example scenario, on the example
  host. The regions come out in collation order and the products likewise; the sales of
  a region and product with no record are the \<open>0\<close> of the empty subset; the grand total is
  \<open>820\<close>, and \<open>570\<close> once the filter keeps the regions North and South only.\<close>

lemma example_region_values:
  "distinctValues (filterData exampleRecords (filters exampleConfig)) ''region''
   = [''North'', ''South'', ''East'', ''West'']"
  by (simp add: example_simps)

lemma example_product_values:
  "distinctValues (filterData exampleRecords (filters exampleConfig)) ''product''
   = [''A'', ''B'', ''C'']"
  by (simp add: example_simps)

lemma example_row_keys:
  "getNestedKeys exampleHost (filterData exampleRecords (filters exampleConfig)) (rows exampleConfig)
   = [[''East''], [''North''], [''South''], [''West'']]"
proof -
  have "sortedValues exampleHost (filterData exampleRecords (filters exampleConfig)) ''region''
        = [''East'', ''North'', ''South'', ''West'']"
    by (simp add: sortedValues_text [OF example_region_values] parse_simps stableSort_def)
  then show ?thesis by (simp add: getNestedKeys_product exampleConfig_def [THEN arg_cong])
qed

lemmas aggregate_simps = aggregatedValues_def valueKey_def aggregate_def fieldValues_def
  numericValues_def sumReduce_def getField_def isNaN_def parse_simps

lemma example_column_keys:
  "getNestedKeys exampleHost (filterData exampleRecords (filters exampleConfig)) (columns exampleConfig)
   = [[''A''], [''B''], [''C'']]"
proof -
  have "sortedValues exampleHost (filterData exampleRecords (filters exampleConfig)) ''product''
        = [''A'', ''B'', ''C'']"
    by (simp add: sortedValues_text [OF example_product_values] parse_simps stableSort_def)
  then show ?thesis by (simp add: getNestedKeys_product exampleConfig_def [THEN arg_cong])
qed

lemma example_headers:
  "rowHeaders (generatePivotTable exampleHost exampleRecords exampleConfig)
   = [[''East''], [''North''], [''South''], [''West'']]"
  "columnHeaders (generatePivotTable exampleHost exampleRecords exampleConfig)
   = [[''A''], [''B''], [''C'']]"
  by (simp_all add: generatePivotTable_def Let_def example_row_keys example_column_keys)

lemma example_cell_values:
  "map (map cellValue) (cells (generatePivotTable exampleHost exampleRecords exampleConfig))
   = [[[(''sales (sum)'', RNum (Fin 90))], [(''sales (sum)'', RNum (Fin 0))],
       [(''sales (sum)'', RNum (Fin 0))]],
      [[(''sales (sum)'', RNum (Fin 100))], [(''sales (sum)'', RNum (Fin 150))],
       [(''sales (sum)'', RNum (Fin 0))]],
      [[(''sales (sum)'', RNum (Fin 200))], [(''sales (sum)'', RNum (Fin 120))],
       [(''sales (sum)'', RNum (Fin 0))]],
      [[(''sales (sum)'', RNum (Fin 0))], [(''sales (sum)'', RNum (Fin 0))],
       [(''sales (sum)'', RNum (Fin 160))]]]"
  by (simp add: generatePivotTable_def Let_def example_row_keys example_column_keys)
     (simp add: example_simps makeCell_def getSubsetData_def fieldAt_def aggregate_simps
       sales_strings fl_of_int del: numberToString.simps)

lemma example_row_totals:
  "rowTotals (generatePivotTable exampleHost exampleRecords exampleConfig)
   = [[(''sales (sum)'', RNum (Fin 90))], [(''sales (sum)'', RNum (Fin 250))],
      [(''sales (sum)'', RNum (Fin 320))], [(''sales (sum)'', RNum (Fin 160))]]"
  by (simp add: generatePivotTable_def Let_def example_row_keys example_column_keys)
     (simp add: example_simps rowTotalOf_def getSubsetData_def fieldAt_def aggregate_simps
       sales_strings fl_of_int del: numberToString.simps)

lemma example_column_totals:
  "columnTotals (generatePivotTable exampleHost exampleRecords exampleConfig)
   = [[(''sales (sum)'', RNum (Fin 390))], [(''sales (sum)'', RNum (Fin 270))],
      [(''sales (sum)'', RNum (Fin 160))]]"
  by (simp add: generatePivotTable_def Let_def example_row_keys example_column_keys)
     (simp add: example_simps colTotalOf_def getSubsetData_def fieldAt_def aggregate_simps
       sales_strings fl_of_int del: numberToString.simps)

lemma example_grand_total:
  "grandTotal (generatePivotTable exampleHost exampleRecords exampleConfig)
   = [(''sales (sum)'', RNum (Fin 820))]"
  by (simp add: generatePivotTable_def Let_def exampleRecords_def exampleConfig_def filterData_def
      aggregate_simps sales_strings fl_of_int del: numberToString.simps)

lemma filtered_region_values:
  "distinctValues (filterData exampleRecords (filters filteredConfig)) ''region''
   = [''North'', ''South'']"
  by (simp add: exampleRecords_def filteredConfig_def filterData_def distinctValues_def
      coerced_def getField_def Set_add_def)

lemma filtered_row_headers:
  "rowHeaders (generatePivotTable exampleHost exampleRecords filteredConfig)
   = [[''North''], [''South'']]"
proof -
  have "sortedValues exampleHost (filterData exampleRecords (filters filteredConfig)) ''region''
        = [''North'', ''South'']"
    by (simp add: sortedValues_text [OF filtered_region_values] parse_simps stableSort_def)
  then show ?thesis
    by (simp add: generatePivotTable_def Let_def getNestedKeys_product
        filteredConfig_def [THEN arg_cong])
qed

lemma filtered_grand_total:
  "grandTotal (generatePivotTable exampleHost exampleRecords filteredConfig)
   = [(''sales (sum)'', RNum (Fin 570))]"
  by (simp add: generatePivotTable_def Let_def exampleRecords_def filteredConfig_def filterData_def
      coerced_def aggregate_simps sales_strings fl_of_int del: numberToString.simps)


section \<open>Empty input\<close>

lemma update_constant:
  "AList.update k c (map (\<lambda>key. (key, c)) ks) = map (\<lambda>key. (key, c)) (Set_add ks k)"
  by (induction ks) (auto simp: Set_add_def)

lemma foldl_update_constant:
  "foldl (\<lambda>obj vc. AList.update (h vc) c obj) (map (\<lambda>key. (key, c)) ks) vcs
   = map (\<lambda>key. (key, c)) (foldl Set_add ks (map h vcs))"
  by (induction vcs arbitrary: ks) (simp_all add: update_constant)

lemma aggregate_Nil [simp]: "aggregate P [] field fn = RNum (Fin 0)"
  by (simp add: aggregate_def)

lemma aggregatedValues_Nil: "aggregatedValues P vcs [] = emptyDefaults vcs"
  using foldl_update_constant [of valueKey "RNum (Fin 0)" "[]" vcs]
  by (simp add: aggregatedValues_def emptyDefaults_def newSet_def ofNat_def)

lemma filterData_Nil [simp]: "filterData [] fs = []"
  by (simp add: filterData_def)

lemma getSubsetData_Nil [simp]: "getSubsetData [] rk ck rf cf = []"
  by (simp add: getSubsetData_def)

text \<open>
  C6, as amended. On an empty record list the row headers are \<open>[]\<close> when row fields are
  configured and \<open>[[]]\<close> when none is, and likewise the column headers. The grid has one
  row per row header: it is \<open>[]\<close> when row fields are configured; without row fields it
  is the one row \<open>[[]]\<close> of no cells when column fields are configured, and otherwise the
  one row of the one cell that holds the empty-input defaults and no records. The grand
  total is the empty-input defaults: \<^verbatim>\<open>{"Count": 0}\<close> without value fields, otherwise \<open>0\<close>
  under every value key, as in \<^verbatim>\<open>{"field (sum)": 0}\<close>.
\<close>

theorem empty_records_table:
  "rowHeaders (generatePivotTable P [] config) = (if rows config = [] then [[]] else [])
   \<and> columnHeaders (generatePivotTable P [] config) = (if columns config = [] then [[]] else [])
   \<and> cells (generatePivotTable P [] config)
       = (if rows config \<noteq> [] then []
          else if columns config \<noteq> [] then [[]]
          else [[\<lparr>cellValue = emptyDefaults (valueFields config), rowKeys = [], columnKeys = [],
                   cellData = []\<rparr>]])
   \<and> grandTotal (generatePivotTable P [] config) = emptyDefaults (valueFields config)
   \<and> emptyDefaults [] = [(''Count'', RNum (Fin 0))]
   \<and> emptyDefaults [\<lparr>vf_field = ''field'', vf_aggregation = Sum\<rparr>] = [(''field (sum)'', RNum (Fin 0))]"
  by (simp add: generatePivotTable_def Let_def getNestedKeys_empty_data makeCell_def
      aggregatedValues_Nil)
     (simp add: emptyDefaults_def newSet_def Set_add_def valueKey_def)

theorem empty_records_table_witness:
  "rowHeaders (generatePivotTable exampleHost [] exampleConfig) = []
   \<and> columnHeaders (generatePivotTable exampleHost [] exampleConfig) = []
   \<and> cells (generatePivotTable exampleHost [] exampleConfig) = []
   \<and> grandTotal (generatePivotTable exampleHost [] exampleConfig) = [(''sales (sum)'', RNum (Fin 0))]"
  using empty_records_table [of exampleHost exampleConfig]
  by (simp add: exampleConfig_def emptyDefaults_def newSet_def Set_add_def valueKey_def)

text \<open>Without grouping fields and value fields the grid of an empty record list is not
  empty: it has the one cell of the one ungrouped row and column.\<close>

theorem empty_records_cells_counterexample:
  "cells (generatePivotTable exampleHost [] \<lparr>rows = [], columns = [], valueFields = [], filters = []\<rparr>)
   = [[\<lparr>cellValue = [(''Count'', RNum (Fin 0))], rowKeys = [], columnKeys = [], cellData = []\<rparr>]]
   \<and> cells (generatePivotTable exampleHost [] \<lparr>rows = [], columns = [], valueFields = [], filters = []\<rparr>)
       \<noteq> []"
  by (simp add: generatePivotTable_def Let_def getNestedKeys_def makeCell_def aggregatedValues_def
      ofNat_def)

section \<open>The asynchronous builder\<close>

lemma length_distinctValues: "length (distinctValues data field) = distinctCount data field"
  using distinct_card [of "distinctValues data field"] by (simp add: distinctCount_def)

lemma rowLoop_no_abort:
  assumes "\<forall>t. \<not> aborted signal t"
  shows "\<exists>t'. rowLoop P config fd signal rowKs colKs i t cs rts
              = Inr (cs @ map (\<lambda>rk. map (\<lambda>ck. makeCell P config fd rk ck) colKs) (drop i rowKs),
                     rts @ map (\<lambda>rk. rowTotalOf P config fd rk) (drop i rowKs), t')"
  using assms
proof (induction P config fd signal rowKs colKs i t cs rts rule: rowLoop.induct)
  case (1 P config fd signal rowKs colKs i t cs rts)
  show ?case
  proof (cases "i < length rowKs")
    case False
    then show ?thesis by (simp add: rowLoop.simps [of _ _ _ _ rowKs _ i])
  next
    case True
    then have d: "drop i rowKs = rowKs ! i # drop (Suc i) rowKs"
      by (simp add: Cons_nth_drop_Suc)
    define t' where "t' = (if i mod CHUNK_SIZE = 0 then t + 1 else t)"
    have na: "\<not> (i mod CHUNK_SIZE = 0 \<and> aborted signal t')" using "1.prems" by simp
    from "1.IH" [OF True t'_def na refl refl refl "1.prems"]
    obtain t'' where ih: "rowLoop P config fd signal rowKs colKs (i + 1) t'
          (cs @ [map (makeCell P config fd (rowKs ! i)) colKs])
          (rts @ [rowTotalOf P config fd (rowKs ! i)])
        = Inr ((cs @ [map (makeCell P config fd (rowKs ! i)) colKs])
                 @ map (\<lambda>rk. map (\<lambda>ck. makeCell P config fd rk ck) colKs) (drop (i + 1) rowKs),
               (rts @ [rowTotalOf P config fd (rowKs ! i)])
                 @ map (\<lambda>rk. rowTotalOf P config fd rk) (drop (i + 1) rowKs), t'')"
      by blast
    show ?thesis
      using True na ih
      by (subst rowLoop.simps) (auto simp: Let_def d t'_def)
  qed
qed

lemma colLoop_no_abort:
  assumes "\<forall>t. \<not> aborted signal t"
  shows "\<exists>t'. colLoop P config fd signal colKs i t cts
              = Inr (cts @ map (\<lambda>ck. colTotalOf P config fd ck) (drop i colKs), t')"
  using assms
proof (induction P config fd signal colKs i t cts rule: colLoop.induct)
  case (1 P config fd signal colKs i t cts)
  show ?case
  proof (cases "i < length colKs")
    case False
    then show ?thesis by (simp add: colLoop.simps [of _ _ _ _ colKs i])
  next
    case True
    then have d: "drop i colKs = colKs ! i # drop (Suc i) colKs"
      by (simp add: Cons_nth_drop_Suc)
    define t' where "t' = (if i mod CHUNK_SIZE = 0 then t + 1 else t)"
    have na: "\<not> (i mod CHUNK_SIZE = 0 \<and> aborted signal t')" using "1.prems" by simp
    from "1.IH" [OF True t'_def na refl refl "1.prems"]
    obtain t'' where ih: "colLoop P config fd signal colKs (i + 1) t'
          (cts @ [colTotalOf P config fd (colKs ! i)])
        = Inr ((cts @ [colTotalOf P config fd (colKs ! i)])
                 @ map (\<lambda>ck. colTotalOf P config fd ck) (drop (i + 1) colKs), t'')"
      by blast
    show ?thesis
      using True na ih
      by (subst colLoop.simps) (auto simp: Let_def d t'_def)
  qed
qed

lemma rowLoop_error:
  "rowLoop P config fd signal rowKs colKs i t cs rts = Inl e \<Longrightarrow> e = Aborted"
proof (induction P config fd signal rowKs colKs i t cs rts rule: rowLoop.induct)
  case (1 P config fd signal rowKs colKs i t cs rts)
  show ?case
  proof (cases "i < length rowKs")
    case False
    then show ?thesis using "1.prems" by (simp add: rowLoop.simps [of _ _ _ _ rowKs _ i])
  next
    case True
    define t' where "t' = (if i mod CHUNK_SIZE = 0 then t + 1 else t)"
    show ?thesis
    proof (cases "i mod CHUNK_SIZE = 0 \<and> aborted signal t'")
      case True
      with \<open>i < length rowKs\<close> "1.prems" show ?thesis
        by (subst (asm) rowLoop.simps) (auto simp: Let_def t'_def)
    next
      case False
      have "rowLoop P config fd signal rowKs colKs (i + 1) t'
              (cs @ [map (makeCell P config fd (rowKs ! i)) colKs])
              (rts @ [rowTotalOf P config fd (rowKs ! i)]) = Inl e"
        using \<open>i < length rowKs\<close> False "1.prems"
        by (subst (asm) rowLoop.simps) (auto simp: Let_def t'_def split: if_splits)
      with "1.IH" [OF True t'_def False refl refl refl] show ?thesis by simp
    qed
  qed
qed

lemma colLoop_error:
  "colLoop P config fd signal colKs i t cts = Inl e \<Longrightarrow> e = Aborted"
proof (induction P config fd signal colKs i t cts rule: colLoop.induct)
  case (1 P config fd signal colKs i t cts)
  show ?case
  proof (cases "i < length colKs")
    case False
    then show ?thesis using "1.prems" by (simp add: colLoop.simps [of _ _ _ _ colKs i])
  next
    case True
    define t' where "t' = (if i mod CHUNK_SIZE = 0 then t + 1 else t)"
    show ?thesis
    proof (cases "i mod CHUNK_SIZE = 0 \<and> aborted signal t'")
      case True
      with \<open>i < length colKs\<close> "1.prems" show ?thesis
        by (subst (asm) colLoop.simps) (auto simp: Let_def t'_def)
    next
      case False
      have "colLoop P config fd signal colKs (i + 1) t'
              (cts @ [colTotalOf P config fd (colKs ! i)]) = Inl e"
        using \<open>i < length colKs\<close> False "1.prems"
        by (subst (asm) colLoop.simps) (auto simp: Let_def t'_def split: if_splits)
      with "1.IH" [OF True t'_def False refl refl] show ?thesis by simp
    qed
  qed
qed

lemma afterKeys_not_validation:
  "afterKeys P config fd signal rowKs columnKs \<noteq> Inl (PivotValidationError msg f ax n)"
  by (auto simp: afterKeys_def split: sum.splits if_splits dest: rowLoop_error colLoop_error)

lemma afterKeys_no_abort:
  assumes "\<forall>t. \<not> aborted signal t"
  shows "afterKeys P config fd signal rowKs columnKs
         = Inr \<lparr>rowHeaders = rowKs, columnHeaders = columnKs,
               cells = map (\<lambda>rk. map (\<lambda>ck. makeCell P config fd rk ck) columnKs) rowKs,
               rowTotals = map (\<lambda>rk. rowTotalOf P config fd rk) rowKs,
               columnTotals = map (\<lambda>ck. colTotalOf P config fd ck) columnKs,
               grandTotal = aggregatedValues P (valueFields config) fd\<rparr>"
proof -
  obtain t where r: "rowLoop P config fd signal rowKs columnKs 0 2 [] []
      = Inr (map (\<lambda>rk. map (\<lambda>ck. makeCell P config fd rk ck) columnKs) rowKs,
             map (\<lambda>rk. rowTotalOf P config fd rk) rowKs, t)"
    using rowLoop_no_abort [OF assms, of P config fd rowKs columnKs 0 2 "[]" "[]"] by auto
  obtain t' where c: "colLoop P config fd signal columnKs 0 t []
      = Inr (map (\<lambda>ck. colTotalOf P config fd ck) columnKs, t')"
    using colLoop_no_abort [OF assms, of P config fd columnKs 0 t "[]"] by auto
  show ?thesis using assms by (simp add: afterKeys_def r c)
qed

lemma example_region_count:
  "distinctCount (filterData exampleRecords (filters exampleConfig)) ''region'' = 4"
  by (simp add: length_distinctValues [symmetric] example_region_values)

lemma example_product_count:
  "distinctCount (filterData exampleRecords (filters exampleConfig)) ''product'' = 3"
  by (simp add: length_distinctValues [symmetric] example_product_values)

text \<open>
  C1. When no grouping field has more distinct coerced values over the filtered records
  than the limit allows, and the signal is never aborted, the asynchronous builder
  returns a table, and it is the table of the synchronous builder: the same row headers,
  column headers, cells, row totals, column totals and grand total.
\<close>

theorem async_equals_sync:
  assumes "\<forall>f \<in> set (rows config) \<union> set (columns config).
             \<not> exceedsLimit L (distinctCount (filterData data (filters config)) f)"
    and "\<forall>t. \<not> aborted signal t"
  shows "generatePivotTableAsync P data config signal L = Inr (generatePivotTable P data config)"
proof -
  let ?fd = "filterData data (filters config)"
  have r: "List.find (\<lambda>f. jsless L (ofNat (length (distinctValues ?fd f))))
             (rows config) = None"
    using assms(1) by (auto simp: find_None_iff exceedsLimit_def length_distinctValues)
  have c: "List.find (\<lambda>f. jsless L (ofNat (length (distinctValues ?fd f))))
             (columns config) = None"
    using assms(1) by (auto simp: find_None_iff exceedsLimit_def length_distinctValues)
  show ?thesis
    using assms(2)
    by (simp add: generatePivotTableAsync_def Let_def getNestedKeysAsync_find r c
        afterKeys_no_abort [OF assms(2)] generatePivotTable_def)
qed

theorem async_equals_sync_witness:
  "list_all (\<lambda>f. \<not> exceedsLimit (Fin 1000)
                     (distinctCount (filterData exampleRecords (filters exampleConfig)) f))
     (rows exampleConfig @ columns exampleConfig)
   \<and> (\<forall>t. \<not> aborted None t)
   \<and> generatePivotTableAsync exampleHost exampleRecords exampleConfig None (Fin 1000)
       = Inr (generatePivotTable exampleHost exampleRecords exampleConfig)"
proof -
  have h0: "list_all (\<lambda>f. \<not> exceedsLimit (Fin 1000)
                     (distinctCount (filterData exampleRecords (filters exampleConfig)) f))
     (rows exampleConfig @ columns exampleConfig)"
    using example_region_count example_product_count
    by (simp add: exampleConfig_def exceedsLimit_def ofNat_def)
  then have h1: "\<forall>f \<in> set (rows exampleConfig) \<union> set (columns exampleConfig).
      \<not> exceedsLimit (Fin 1000) (distinctCount (filterData exampleRecords (filters exampleConfig)) f)"
    by (simp add: list_all_iff)
  have h2: "\<forall>t. \<not> aborted None t" by (simp add: aborted_def)
  show ?thesis
    using h0 h2 async_equals_sync [OF h1 h2, of exampleHost] by simp
qed

lemma async_cases:
  assumes "\<not> aborted signal 0"
  shows "generatePivotTableAsync P data config signal L
   = (case List.find (\<lambda>f. exceedsLimit L (distinctCount (filterData data (filters config)) f))
             (rows config) of
        Some f \<Rightarrow>
          Inl (PivotValidationError
                 (validationMessage P f (distinctCount (filterData data (filters config)) f)) f Row
                 (distinctCount (filterData data (filters config)) f))
      | None \<Rightarrow>
          (case List.find (\<lambda>f. exceedsLimit L (distinctCount (filterData data (filters config)) f))
                  (columns config) of
             Some f \<Rightarrow>
               Inl (PivotValidationError
                      (validationMessage P f (distinctCount (filterData data (filters config)) f)) f
                      Column (distinctCount (filterData data (filters config)) f))
           | None \<Rightarrow>
               afterKeys P config (filterData data (filters config)) signal
                 (getNestedKeys P (filterData data (filters config)) (rows config))
                 (getNestedKeys P (filterData data (filters config)) (columns config))))"
  using assms
  by (simp add: generatePivotTableAsync_def Let_def getNestedKeysAsync_find exceedsLimit_def
      length_distinctValues split: option.splits)

lemma exceedsLimit_ofNat: "exceedsLimit (ofNat l) n \<longleftrightarrow> l < n"
  by (simp add: exceedsLimit_def ofNat_def)

text \<open>
  C4. Called with a signal that is not aborted (or with none), the asynchronous builder
  fails with a \<^verbatim>\<open>PivotValidationError\<close> if and only if some row or column field has more
  distinct coerced values over the filtered records than the limit. The error names such
  a field, carries the axis that the field was configured on and the field's distinct
  count, and is a row error whenever a row field exceeds the limit. A field with exactly
  as many distinct values as the limit does not exceed it; one more does.
\<close>

theorem cardinality_exceeded_iff:
  assumes "\<not> aborted signal 0"
  shows "((\<exists>msg f ax n. generatePivotTableAsync P data config signal L
                          = Inl (PivotValidationError msg f ax n))
          \<longleftrightarrow> (\<exists>f \<in> set (rows config) \<union> set (columns config).
                 exceedsLimit L (distinctCount (filterData data (filters config)) f)))
       \<and> (\<forall>msg f ax n.
            generatePivotTableAsync P data config signal L = Inl (PivotValidationError msg f ax n)
            \<longrightarrow> exceedsLimit L (distinctCount (filterData data (filters config)) f)
                \<and> n = distinctCount (filterData data (filters config)) f
                \<and> msg = validationMessage P f n
                \<and> (ax = Row \<and> f \<in> set (rows config) \<or> ax = Column \<and> f \<in> set (columns config))
                \<and> ((\<exists>g \<in> set (rows config).
                       exceedsLimit L (distinctCount (filterData data (filters config)) g))
                     \<longrightarrow> ax = Row))
       \<and> (exceedsLimit (ofNat l) l = False \<and> exceedsLimit (ofNat l) (l + 1) = True)"
proof -
  let ?fd = "filterData data (filters config)"
  let ?ex = "\<lambda>f. exceedsLimit L (distinctCount ?fd f)"
  note c = async_cases [OF assms, of P data config L]
  show ?thesis
  proof (cases "List.find ?ex (rows config)")
    case (Some f)
    then have "?ex f" "f \<in> set (rows config)"
      by (auto simp: find_Some_iff)
    with Some c show ?thesis
      by (auto simp: exceedsLimit_ofNat)
  next
    case None
    then have nr: "\<forall>g \<in> set (rows config). \<not> ?ex g"
      by (simp add: find_None_iff)
    show ?thesis
    proof (cases "List.find ?ex (columns config)")
      case (Some f)
      then have "?ex f" "f \<in> set (columns config)"
        by (auto simp: find_Some_iff)
      with Some None c nr show ?thesis
        by (auto simp: exceedsLimit_ofNat)
    next
      case None': None
      then have nc: "\<forall>g \<in> set (columns config). \<not> ?ex g"
        by (simp add: find_None_iff)
      from None None' c have "generatePivotTableAsync P data config signal L
          = afterKeys P config ?fd signal (getNestedKeys P ?fd (rows config))
              (getNestedKeys P ?fd (columns config))"
        by simp
      with nr nc show ?thesis
        by (auto simp: exceedsLimit_ofNat afterKeys_not_validation)
    qed
  qed
qed

theorem cardinality_exceeded_iff_witness:
  "\<not> aborted None 0
   \<and> (\<exists>f \<in> set (rows exampleConfig) \<union> set (columns exampleConfig).
        exceedsLimit (Fin 3) (distinctCount (filterData exampleRecords (filters exampleConfig)) f))
   \<and> (\<exists>msg. generatePivotTableAsync exampleHost exampleRecords exampleConfig None (Fin 3)
              = Inl (PivotValidationError msg ''region'' Row 4))"
proof -
  have h: "\<not> aborted None 0" by (simp add: aborted_def)
  have v: "\<exists>f \<in> set (rows exampleConfig) \<union> set (columns exampleConfig).
        exceedsLimit (Fin 3) (distinctCount (filterData exampleRecords (filters exampleConfig)) f)"
    using example_region_count by (simp add: exampleConfig_def exceedsLimit_def ofNat_def)
  have vr: "\<exists>g \<in> set (rows exampleConfig).
        exceedsLimit (Fin 3) (distinctCount (filterData exampleRecords (filters exampleConfig)) g)"
    using example_region_count by (simp add: exampleConfig_def exceedsLimit_def ofNat_def)
  note c = cardinality_exceeded_iff [OF h, of exampleHost exampleRecords exampleConfig "Fin 3" 0]
  from c v obtain msg f ax n where
    e: "generatePivotTableAsync exampleHost exampleRecords exampleConfig None (Fin 3)
        = Inl (PivotValidationError msg f ax n)"
    by blast
  with c vr have "ax = Row" and "n = distinctCount (filterData exampleRecords (filters exampleConfig)) f"
    and "ax = Row \<and> f \<in> set (rows exampleConfig) \<or> ax = Column \<and> f \<in> set (columns exampleConfig)"
    by blast+
  then have "ax = Row" "f = ''region''" "n = 4"
    using example_region_count by (auto simp: exampleConfig_def)
  with e h v show ?thesis by blast
qed

text \<open>
  C5. When the signal is already aborted at the call, the builder fails with the
  \<^verbatim>\<open>Aborted\<close> error, which is not a \<^verbatim>\<open>PivotValidationError\<close>, and returns no table.
\<close>

theorem aborted_before_invocation:
  assumes "aborted signal 0"
  shows "generatePivotTableAsync P data config signal pivotItemThreshold = Inl Aborted
         \<and> (\<forall>msg f ax n. Aborted \<noteq> PivotValidationError msg f ax n)
         \<and> (\<forall>t. generatePivotTableAsync P data config signal pivotItemThreshold \<noteq> Inr t)"
  using assms by (simp add: generatePivotTableAsync_def Let_def)

theorem aborted_before_invocation_witness:
  "aborted (Some (\<lambda>t. True)) 0
   \<and> generatePivotTableAsync exampleHost [[(''region'', Str ''North'')]]
        \<lparr>rows = [''region''], columns = [], valueFields = [], filters = []\<rparr>
        (Some (\<lambda>t. True)) (Fin 1000) = Inl Aborted"
proof -
  have h: "aborted (Some (\<lambda>t. True)) 0" by (simp add: aborted_def)
  show ?thesis
    using h aborted_before_invocation [OF h, of exampleHost "[[(''region'', Str ''North'')]]"
        "\<lparr>rows = [''region''], columns = [], valueFields = [], filters = []\<rparr>" "Fin 1000"]
    by simp
qed

section \<open>Cells partition the records\<close>

lemma everyKey_iff:
  "everyKey item fs i ks \<longleftrightarrow> (\<forall>j<length ks. ks ! j = coerced item (fieldAt fs (i + j)))"
proof (induction ks arbitrary: i)
  case Nil
  then show ?case by simp
next
  case (Cons k ks)
  show ?case
    by (auto simp: Cons.IH less_Suc_eq_0_disj)
qed

lemma everyKey_map:
  assumes "length ks = length fs"
  shows "everyKey item fs 0 ks \<longleftrightarrow> ks = map (coerced item) fs"
  using assms by (auto simp: everyKey_iff list_eq_iff_nth_eq fieldAt_def)

lemma everyKey_Nil [simp]: "everyKey item fs i [] = True"
  by simp

lemma key_in_getNestedKeys:
  assumes "item \<in> set data"
  shows "map (coerced item) fs \<in> set (getNestedKeys P data fs)"
  using assms by (auto simp: set_getNestedKeys list_all2_map1 list_all2_same)

lemma sum_list_absent_key:
  fixes m :: "'b multiset"
  shows "a \<notin> set K \<Longrightarrow> (\<Sum>k\<leftarrow>K. if a = k then m else {#}) = {#}"
  by (induction K) auto

lemma sum_list_single_key:
  fixes m :: "'b multiset"
  assumes "distinct K" "a \<in> set K"
  shows "(\<Sum>k\<leftarrow>K. if a = k then m else {#}) = m"
  using assms by (induction K) (auto simp: sum_list_absent_key)

lemma mset_concat_Nil: "mset (concat (map (\<lambda>k. []) K)) = {#}"
  by (induction K) auto

lemma partition_by_key:
  assumes "distinct K" "\<forall>x\<in>set xs. key x \<in> set K"
  shows "mset (concat (map (\<lambda>k. filter (\<lambda>x. p x \<and> key x = k) xs) K)) = mset (filter p xs)"
  using assms(2)
proof (induction xs)
  case Nil
  then show ?case by (simp add: mset_concat_Nil)
next
  case (Cons x xs)
  have kx: "key x \<in> set K" using Cons.prems by simp
  have ih: "(\<Sum>k\<leftarrow>K. mset (filter (\<lambda>x. p x \<and> key x = k) xs)) = mset (filter p xs)"
    using Cons by (simp add: mset_concat comp_def)
  have "(\<Sum>k\<leftarrow>K. mset (filter (\<lambda>x. p x \<and> key x = k) (x # xs)))
        = (\<Sum>k\<leftarrow>K. (if key x = k then (if p x then {#x#} else {#}) else {#})
                    + mset (filter (\<lambda>x. p x \<and> key x = k) xs))"
    by (rule arg_cong [where f = sum_list]) auto
  also have "\<dots> = (\<Sum>k\<leftarrow>K. if key x = k then (if p x then {#x#} else {#}) else {#})
                  + (\<Sum>k\<leftarrow>K. mset (filter (\<lambda>x. p x \<and> key x = k) xs))"
    by (simp add: sum_list_addf)
  also have "\<dots> = (if p x then {#x#} else {#}) + mset (filter p xs)"
    by (simp only: sum_list_single_key [OF assms(1) kx] ih)
  finally show ?case by (simp add: mset_concat comp_def)
qed

lemma getSubsetData_filter:
  assumes "length rk = length rf" "length ck = length cf"
  shows "getSubsetData fd rk ck rf cf
         = filter (\<lambda>item. map (coerced item) rf = rk \<and> map (coerced item) cf = ck) fd"
  using assms by (auto simp: getSubsetData_def everyKey_map intro!: filter_cong)

lemma getSubsetData_row:
  assumes "length rk = length rf"
  shows "getSubsetData fd rk [] rf [] = filter (\<lambda>item. map (coerced item) rf = rk) fd"
  using getSubsetData_filter [OF assms, of "[]" "[]" fd] by simp

lemma getSubsetData_column:
  assumes "length ck = length cf"
  shows "getSubsetData fd [] ck [] cf = filter (\<lambda>item. map (coerced item) cf = ck) fd"
  using getSubsetData_filter [OF _ assms, of "[]" "[]" fd] by simp

lemma cells_length [simp]:
  "length (cells (generatePivotTable P data config))
   = length (getNestedKeys P (filterData data (filters config)) (rows config))"
  by (simp add: generatePivotTable_def Let_def)

lemma rowTotals_length [simp]:
  "length (rowTotals (generatePivotTable P data config))
   = length (getNestedKeys P (filterData data (filters config)) (rows config))"
  by (simp add: generatePivotTable_def Let_def)

lemma rowHeaders_eq [simp]:
  "rowHeaders (generatePivotTable P data config)
   = getNestedKeys P (filterData data (filters config)) (rows config)"
  by (simp add: generatePivotTable_def Let_def)

lemma cells_row:
  assumes "r < length (getNestedKeys P (filterData data (filters config)) (rows config))"
  shows "cells (generatePivotTable P data config) ! r
         = map (\<lambda>ck. makeCell P config (filterData data (filters config))
                        (getNestedKeys P (filterData data (filters config)) (rows config) ! r) ck)
             (getNestedKeys P (filterData data (filters config)) (columns config))"
  using assms by (simp add: generatePivotTable_def Let_def)

lemma rowTotals_row:
  assumes "r < length (getNestedKeys P (filterData data (filters config)) (rows config))"
  shows "rowTotals (generatePivotTable P data config) ! r
         = rowTotalOf P config (filterData data (filters config))
             (getNestedKeys P (filterData data (filters config)) (rows config) ! r)"
  using assms by (simp add: generatePivotTable_def Let_def)

lemma cellData_makeCell [simp]:
  "cellData (makeCell P config fd rk ck) = getSubsetData fd rk ck (rows config) (columns config)"
  by (simp add: makeCell_def Let_def)

lemma cellValue_makeCell [simp]:
  "cellValue (makeCell P config fd rk ck)
   = aggregatedValues P (valueFields config) (getSubsetData fd rk ck (rows config) (columns config))"
  by (simp add: makeCell_def Let_def)

lemma row_cells_partition:
  assumes "rk \<in> set (getNestedKeys P fd (rows config))"
  shows "mset (concat (map (\<lambda>ck. cellData (makeCell P config fd rk ck))
                         (getNestedKeys P fd (columns config))))
         = mset (getSubsetData fd rk [] (rows config) [])"
proof -
  let ?CK = "getNestedKeys P fd (columns config)"
  have lr: "length rk = length (rows config)" using assms by (rule length_getNestedKeys)
  have eq: "map (\<lambda>ck. cellData (makeCell P config fd rk ck)) ?CK
        = map (\<lambda>ck. filter (\<lambda>item. map (coerced item) (rows config) = rk
                                   \<and> map (coerced item) (columns config) = ck) fd) ?CK"
    by (rule map_cong [OF refl]) (simp add: getSubsetData_filter lr length_getNestedKeys)
  have "mset (concat (map (\<lambda>ck. cellData (makeCell P config fd rk ck)) ?CK))
        = mset (concat (map (\<lambda>ck. filter (\<lambda>item. map (coerced item) (rows config) = rk
                                   \<and> map (coerced item) (columns config) = ck) fd) ?CK))"
    by (simp only: eq)
  also have "\<dots> = mset (filter (\<lambda>item. map (coerced item) (rows config) = rk) fd)"
    by (rule partition_by_key) (simp_all add: key_in_getNestedKeys)
  also have "\<dots> = mset (getSubsetData fd rk [] (rows config) [])"
    by (simp add: getSubsetData_row lr)
  finally show ?thesis .
qed

lemma all_rows_partition:
  "mset (concat (map (\<lambda>rk. getSubsetData fd rk [] (rows config) [])
                   (getNestedKeys P fd (rows config))))
   = mset fd"
proof -
  let ?RK = "getNestedKeys P fd (rows config)"
  have eq: "map (\<lambda>rk. getSubsetData fd rk [] (rows config) []) ?RK
        = map (\<lambda>rk. filter (\<lambda>item. True \<and> map (coerced item) (rows config) = rk) fd) ?RK"
    by (rule map_cong [OF refl]) (simp add: getSubsetData_row length_getNestedKeys)
  have "mset (concat (map (\<lambda>rk. getSubsetData fd rk [] (rows config) []) ?RK))
        = mset (concat (map (\<lambda>rk. filter (\<lambda>item. True \<and> map (coerced item) (rows config) = rk) fd) ?RK))"
    by (simp only: eq)
  also have "\<dots> = mset (filter (\<lambda>item. True) fd)"
    by (rule partition_by_key) (simp_all add: key_in_getNestedKeys)
  finally show ?thesis by simp
qed

lemma concat_concat_map: "concat (concat (map f xs)) = concat (map (\<lambda>x. concat (f x)) xs)"
  by (induction xs) auto

lemma mset_concat_cong:
  assumes "\<And>x. x \<in> set xs \<Longrightarrow> mset (f x) = mset (g x)"
  shows "mset (concat (map f xs)) = mset (concat (map g xs))"
  using assms by (induction xs) auto

lemma getNestedKeys_nonempty:
  assumes "item \<in> set data"
  shows "0 < length (getNestedKeys P data fs)"
  using key_in_getNestedKeys [OF assms, of fs P] by (rule length_pos_if_in_set)

lemma example_filtered: "filterData exampleRecords (filters exampleConfig) = exampleRecords"
  by (simp add: filterData_def exampleConfig_def)

lemma text_filtered: "filterData textRecords (filters exampleConfig) = textRecords"
  by (simp add: filterData_def exampleConfig_def)

text \<open>
  C9. Every record of the filtered set lies in exactly one cell of the grid: there is
  exactly one pair of a row index and a column index whose cell holds it. The records of
  the cells of a row, taken together, are the records of the subset that the row total
  is computed from, each as often as there; and the records of all cells together are
  the filtered records.
\<close>

theorem cells_partition_records:
  "(\<forall>x \<in> set (filterData data (filters config)).
      \<exists>!rc. fst rc < length (cells (generatePivotTable P data config))
            \<and> snd rc < length (cells (generatePivotTable P data config) ! fst rc)
            \<and> x \<in> set (cellData (cells (generatePivotTable P data config) ! fst rc ! snd rc)))
   \<and> (\<forall>r < length (cells (generatePivotTable P data config)).
         mset (concat (map cellData (cells (generatePivotTable P data config) ! r)))
           = mset (getSubsetData (filterData data (filters config))
                     (rowHeaders (generatePivotTable P data config) ! r) [] (rows config) [])
         \<and> rowTotals (generatePivotTable P data config) ! r
             = aggregatedValues P (valueFields config)
                 (getSubsetData (filterData data (filters config))
                    (rowHeaders (generatePivotTable P data config) ! r) [] (rows config) []))
   \<and> mset (concat (map cellData (concat (cells (generatePivotTable P data config)))))
       = mset (filterData data (filters config))"
proof (intro conjI ballI allI impI)
  let ?fd = "filterData data (filters config)"
  let ?RK = "getNestedKeys P ?fd (rows config)"
  let ?CK = "getNestedKeys P ?fd (columns config)"
  let ?T = "generatePivotTable P data config"
  have cell: "cellData (cells ?T ! r ! c)
              = filter (\<lambda>item. map (coerced item) (rows config) = ?RK ! r
                              \<and> map (coerced item) (columns config) = ?CK ! c) ?fd"
    if "r < length ?RK" "c < length ?CK" for r c
    using that by (simp add: cells_row getSubsetData_filter length_getNestedKeys [OF nth_mem])
  have len: "length (cells ?T ! r) = length ?CK" if "r < length ?RK" for r
    using that by (simp add: cells_row)
  {
    fix x assume x: "x \<in> set ?fd"
    obtain r where r: "r < length ?RK" "?RK ! r = map (coerced x) (rows config)"
      using key_in_getNestedKeys [OF x, of "rows config" P] by (auto simp: in_set_conv_nth)
    obtain c where c: "c < length ?CK" "?CK ! c = map (coerced x) (columns config)"
      using key_in_getNestedKeys [OF x, of "columns config" P] by (auto simp: in_set_conv_nth)
    show "\<exists>!rc. fst rc < length (cells ?T) \<and> snd rc < length (cells ?T ! fst rc)
               \<and> x \<in> set (cellData (cells ?T ! fst rc ! snd rc))"
    proof (rule ex1I [of _ "(r, c)"])
      show "fst (r, c) < length (cells ?T) \<and> snd (r, c) < length (cells ?T ! fst (r, c))
            \<and> x \<in> set (cellData (cells ?T ! fst (r, c) ! snd (r, c)))"
        using r c x by (simp add: len cell)
    next
      fix rc
      assume a: "fst rc < length (cells ?T) \<and> snd rc < length (cells ?T ! fst rc)
                 \<and> x \<in> set (cellData (cells ?T ! fst rc ! snd rc))"
      then have r': "fst rc < length ?RK" by simp
      with a have c': "snd rc < length ?CK" by (simp add: len)
      from a r' c' have "?RK ! fst rc = map (coerced x) (rows config)"
        and "?CK ! snd rc = map (coerced x) (columns config)"
        by (auto simp: cell)
      with r c have e: "?RK ! fst rc = ?RK ! r" "?CK ! snd rc = ?CK ! c"
        by simp_all
      have "fst rc = r"
        using e(1) nth_eq_iff_index_eq [OF distinct_getNestedKeys r' r(1)] by blast
      moreover have "snd rc = c"
        using e(2) nth_eq_iff_index_eq [OF distinct_getNestedKeys c' c(1)] by blast
      ultimately show "rc = (r, c)" by (simp add: prod_eq_iff)
    qed
  }
  {
    fix r assume "r < length (cells ?T)"
    then have r: "r < length ?RK" by simp
    then have rk: "?RK ! r \<in> set ?RK" by simp
    show "mset (concat (map cellData (cells ?T ! r)))
          = mset (getSubsetData ?fd (rowHeaders ?T ! r) [] (rows config) [])"
      using row_cells_partition [OF rk] r by (simp add: cells_row comp_def)
    show "rowTotals ?T ! r
          = aggregatedValues P (valueFields config)
              (getSubsetData ?fd (rowHeaders ?T ! r) [] (rows config) [])"
      using r by (simp add: rowTotals_row rowTotalOf_def)
  }
  have "mset (concat (map cellData (concat (cells ?T))))
        = mset (concat (map (\<lambda>rk. concat (map (\<lambda>ck. cellData (makeCell P config ?fd rk ck)) ?CK)) ?RK))"
    by (simp add: generatePivotTable_def Let_def map_concat comp_def concat_concat_map)
  also have "\<dots> = mset (concat (map (\<lambda>rk. getSubsetData ?fd rk [] (rows config) []) ?RK))"
    by (rule mset_concat_cong) (rule row_cells_partition)
  also have "\<dots> = mset ?fd" by (rule all_rows_partition)
  finally show "mset (concat (map cellData (concat (cells ?T)))) = mset ?fd" .
qed

theorem cells_partition_records_witness:
  "hd exampleRecords \<in> set (filterData exampleRecords (filters exampleConfig))
   \<and> (\<exists>!rc. fst rc < length (cells (generatePivotTable exampleHost exampleRecords exampleConfig))
            \<and> snd rc < length (cells (generatePivotTable exampleHost exampleRecords exampleConfig) ! fst rc)
            \<and> hd exampleRecords
                \<in> set (cellData (cells (generatePivotTable exampleHost exampleRecords exampleConfig)
                                   ! fst rc ! snd rc)))
   \<and> 0 < length (cells (generatePivotTable exampleHost exampleRecords exampleConfig))
   \<and> mset (concat (map cellData (cells (generatePivotTable exampleHost exampleRecords exampleConfig) ! 0)))
       = mset (getSubsetData (filterData exampleRecords (filters exampleConfig))
                 (rowHeaders (generatePivotTable exampleHost exampleRecords exampleConfig) ! 0) []
                 (rows exampleConfig) [])"
proof -
  have h: "hd exampleRecords \<in> set (filterData exampleRecords (filters exampleConfig))"
    by (simp add: example_filtered) (simp add: exampleRecords_def)
  have l: "0 < length (cells (generatePivotTable exampleHost exampleRecords exampleConfig))"
    using getNestedKeys_nonempty [OF h] by simp
  note c = cells_partition_records [of exampleRecords exampleConfig exampleHost]
  from c h have u: "\<exists>!rc. fst rc < length (cells (generatePivotTable exampleHost exampleRecords exampleConfig))
            \<and> snd rc < length (cells (generatePivotTable exampleHost exampleRecords exampleConfig) ! fst rc)
            \<and> hd exampleRecords
                \<in> set (cellData (cells (generatePivotTable exampleHost exampleRecords exampleConfig)
                                   ! fst rc ! snd rc))"
    by blast
  from c l have p: "mset (concat (map cellData (cells (generatePivotTable exampleHost exampleRecords exampleConfig) ! 0)))
       = mset (getSubsetData (filterData exampleRecords (filters exampleConfig))
                 (rowHeaders (generatePivotTable exampleHost exampleRecords exampleConfig) ! 0) []
                 (rows exampleConfig) [])"
    by blast
  from h u l p show ?thesis by blast
qed

section \<open>Row totals and the cells of the row\<close>

lemma integerValued_Fin: "integerValued x \<Longrightarrow> x = Fin (of_int (integerPart x))"
  by (cases x) auto

lemma foldl_jsadd_exact:
  assumes "list_all integerValued ns"
    and "\<bar>s\<bar> + sum_list (map (\<lambda>x. \<bar>integerPart x\<bar>) ns) < 2 ^ 53"
  shows "foldl jsadd (Fin (of_int s)) ns = Fin (of_int (s + sum_list (map integerPart ns)))"
  using assms
proof (induction ns arbitrary: s)
  case Nil
  then show ?case by simp
next
  case (Cons n ns)
  from Cons.prems(1) have n: "n = Fin (of_int (integerPart n))" and rest: "list_all integerValued ns"
    by (simp_all add: integerValued_Fin)
  have nn: "0 \<le> sum_list (map (\<lambda>x. \<bar>integerPart x\<bar>) ns)"
    by (rule sum_list_nonneg) auto
  have b: "\<bar>s + integerPart n\<bar> < 2 ^ 53"
    using Cons.prems(2) nn by simp
  have "jsadd (Fin (of_int s)) n = fl (of_int (s + integerPart n))"
    by (subst n) simp
  also have "\<dots> = Fin (of_int (s + integerPart n))"
    using b by (rule fl_of_int)
  finally have step: "jsadd (Fin (of_int s)) n = Fin (of_int (s + integerPart n))" .
  have b': "\<bar>s + integerPart n\<bar> + sum_list (map (\<lambda>x. \<bar>integerPart x\<bar>) ns) < 2 ^ 53"
    using Cons.prems(2) by simp
  show ?case
    using Cons.IH [OF rest b'] by (simp add: step add.assoc)
qed

lemma sumReduce_exact:
  assumes "exactlySummable ns"
  shows "sumReduce ns = Fin (of_int (sum_list (map integerPart ns)))"
  using foldl_jsadd_exact [of ns 0] assms by (simp add: sumReduce_def exactlySummable_def)

lemma exactTotal_integers:
  "exactTotal (map (\<lambda>z. Fin (of_int z)) zs) = Some (of_int (sum_list zs))"
  by (induction zs) simp_all

lemma map_of_foldl_update:
  "map_of (foldl (\<lambda>obj vc. AList.update (h vc) (g vc) obj) acc vcs) k
   = (case List.find (\<lambda>vc. h vc = k) (rev vcs) of
        None \<Rightarrow> map_of acc k
      | Some vc \<Rightarrow> Some (g vc))"
  by (induction vcs rule: rev_induct) (simp_all add: update_conv')

lemma find_rev_Some:
  assumes "vc \<in> set vcs"
  shows "\<exists>vc'. List.find (\<lambda>v. h v = h vc) (rev vcs) = Some vc' \<and> vc' \<in> set vcs \<and> h vc' = h vc"
proof (cases "List.find (\<lambda>v. h v = h vc) (rev vcs)")
  case None
  then show ?thesis using assms by (auto simp: find_None_iff)
next
  case (Some a)
  then obtain i where "i < length (rev vcs)" "h (rev vcs ! i) = h vc" "a = rev vcs ! i"
    unfolding find_Some_iff by blast
  then have "a \<in> set (rev vcs)" "h a = h vc"
    using nth_mem by blast+
  with Some show ?thesis by simp
qed

text \<open>The number that the three additive kinds return, on every record subset.\<close>

lemma aggregate_additive:
  assumes "vf_aggregation vc \<in> {Sum, Count, IntegerSum}"
  shows "aggregate P d (vf_field vc) (vf_aggregation vc)
         = RNum (case vf_aggregation vc of
                   Count \<Rightarrow> ofNat (length d)
                 | Sum \<Rightarrow> sumReduce (numericValues js_parseFloat (fieldValues d (vf_field vc)))
                 | _ \<Rightarrow> sumReduce (numericValues js_parseInt (fieldValues d (vf_field vc))))"
proof (cases d)
  case Nil
  with assms show ?thesis
    by (cases "vf_aggregation vc")
       (simp_all add: ofNat_def sumReduce_def numericValues_def fieldValues_def)
next
  case (Cons a list)
  with assms show ?thesis
    by (cases "vf_aggregation vc") (simp_all add: aggregate_def)
qed

lemma numericValues_concat:
  "numericValues parse (fieldValues d f)
   = concat (map (\<lambda>item. numericValues parse (fieldValues [item] f)) d)"
  by (induction d) (simp_all add: numericValues_def fieldValues_def)

lemma magnitude_nonneg: "0 \<le> magnitude vc item"
  unfolding magnitude_def by (rule sum_list_nonneg) auto

lemma weight_le_magnitude: "\<bar>weight vc item\<bar> \<le> magnitude vc item"
  using sum_list_abs [of "map integerPart (contribution vc item)"]
  by (simp add: weight_def magnitude_def comp_def)

lemma sum_weights: "sum_list (map integerPart (summedNumbers d vc)) = sum_list (map (weight vc) d)"
  by (induction d) (simp_all add: summedNumbers_def weight_def)

lemma sum_magnitudes:
  "sum_list (map (\<lambda>x. \<bar>integerPart x\<bar>) (summedNumbers d vc)) = sum_list (map (magnitude vc) d)"
  by (induction d) (simp_all add: summedNumbers_def magnitude_def)

lemma magnitude_filter_le: "sum_list (map (magnitude vc) (filter p d)) \<le> sum_list (map (magnitude vc) d)"
  by (induction d) (auto simp: magnitude_nonneg add_increasing)

lemma exactlySummable_filter:
  assumes "exactlySummable (summedNumbers d vc)"
  shows "exactlySummable (summedNumbers (filter p d) vc)"
proof -
  have "list_all integerValued (summedNumbers (filter p d) vc)"
    using assms by (auto simp: exactlySummable_def summedNumbers_def list_all_iff)
  moreover have "sum_list (map (magnitude vc) (filter p d)) < 2 ^ 53"
    using assms magnitude_filter_le [of vc p d]
    by (simp add: exactlySummable_def sum_magnitudes)
  ultimately show ?thesis by (simp add: exactlySummable_def sum_magnitudes)
qed

lemma sum_list_mset_cong:
  fixes f :: "'a \<Rightarrow> int"
  assumes "mset xs = mset ys"
  shows "sum_list (map f xs) = sum_list (map f ys)"
proof -
  have "sum_list (map f xs) = sum_mset (image_mset f (mset xs))"
    by (metis mset_map sum_mset_sum_list)
  also have "\<dots> = sum_mset (image_mset f (mset ys))" by (simp add: assms)
  also have "\<dots> = sum_list (map f ys)"
    by (metis mset_map sum_mset_sum_list)
  finally show ?thesis .
qed

lemma sum_list_concat_map:
  fixes f :: "'a \<Rightarrow> int"
  shows "sum_list (map f (concat (map g ks))) = sum_list (map (\<lambda>k. sum_list (map f (g k))) ks)"
  by (induction ks) simp_all

lemma those_map_Some: "those (map (\<lambda>x. Some (f x)) xs) = Some (map f xs)"
  by (induction xs) simp_all

text \<open>The value one of the three additive kinds returns on a part of the filtered records,
  when the numbers it adds over all of them are exactly summable.\<close>

lemma additive_value:
  assumes "vf_aggregation vc \<in> {Sum, Count, IntegerSum}"
    and "exactlySummable (summedNumbers fd vc)"
  shows "aggregate P (filter p fd) (vf_field vc) (vf_aggregation vc)
         = RNum (Fin (of_int (sum_list (map (weight vc) (filter p fd)))))"
proof -
  let ?d = "filter p fd"
  have ex: "exactlySummable (summedNumbers ?d vc)"
    using assms(2) by (rule exactlySummable_filter)
  consider "vf_aggregation vc = Count" | "vf_aggregation vc = Sum" | "vf_aggregation vc = IntegerSum"
    using assms(1) by auto
  then show ?thesis
  proof cases
    case 1
    have "sum_list (map (weight vc) d) = int (length d)" for d
      by (induction d) (simp_all add: weight_def contribution_def 1)
    then show ?thesis
      using aggregate_additive [OF assms(1), of P ?d] by (simp add: 1 ofNat_def)
  next
    case 2
    have "numericValues js_parseFloat (fieldValues ?d (vf_field vc)) = summedNumbers ?d vc"
      by (simp add: numericValues_concat [of _ ?d] summedNumbers_def contribution_def [abs_def] 2)
    then show ?thesis
      using aggregate_additive [OF assms(1), of P ?d] sumReduce_exact [OF ex]
      by (simp add: 2 sum_weights)
  next
    case 3
    have "numericValues js_parseInt (fieldValues ?d (vf_field vc)) = summedNumbers ?d vc"
      by (simp add: numericValues_concat [of _ ?d] summedNumbers_def contribution_def [abs_def] 3)
    then show ?thesis
      using aggregate_additive [OF assms(1), of P ?d] sumReduce_exact [OF ex]
      by (simp add: 3 sum_weights)
  qed
qed

lemma numberAt_aggregatedValues:
  assumes "List.find (\<lambda>v. valueKey v = k) (rev vcs) = Some vc"
    and "vf_aggregation vc \<in> {Sum, Count, IntegerSum}"
    and "exactlySummable (summedNumbers fd vc)"
  shows "numberAt k (aggregatedValues P vcs (filter p fd))
         = Some (Fin (of_int (sum_list (map (weight vc) (filter p fd)))))"
proof -
  from assms(1) have "vcs \<noteq> []" by auto
  then show ?thesis
    using additive_value [OF assms(2,3), of P p]
    by (simp add: numberAt_def aggregatedValues_def map_of_foldl_update assms(1))
qed

lemma abs_weights_le: "\<bar>sum_list (map (weight vc) d)\<bar> \<le> sum_list (map (magnitude vc) d)"
proof (induction d)
  case Nil
  then show ?case by simp
next
  case (Cons a d)
  have "\<bar>weight vc a + sum_list (map (weight vc) d)\<bar>
        \<le> \<bar>weight vc a\<bar> + \<bar>sum_list (map (weight vc) d)\<bar>"
    by (rule abs_triangle_ineq)
  also have "\<dots> \<le> magnitude vc a + sum_list (map (magnitude vc) d)"
    using weight_le_magnitude [of vc a] Cons.IH by simp
  finally show ?case by simp
qed

lemma integerValued_of_int [simp]: "integerValued (Fin (of_int z))"
  by simp

lemma row_cells_sum:
  assumes agg: "vf_aggregation vc \<in> {Sum, Count, IntegerSum}"
    and ex: "exactlySummable (summedNumbers fd vc)"
    and fnd: "List.find (\<lambda>v. valueKey v = k) (rev (valueFields config)) = Some vc"
    and rk: "rk \<in> set (getNestedKeys P fd (rows config))"
  shows "rowTotalIsSumOfCells k (rowTotalOf P config fd rk)
           (map (\<lambda>ck. makeCell P config fd rk ck) (getNestedKeys P fd (columns config)))
         \<and> rowTotalIsExactSumOfCells k (rowTotalOf P config fd rk)
           (map (\<lambda>ck. makeCell P config fd rk ck) (getNestedKeys P fd (columns config)))"
proof -
  let ?CK = "getNestedKeys P fd (columns config)"
  let ?prow = "\<lambda>item. map (coerced item) (rows config) = rk"
  let ?pcell = "\<lambda>ck item. map (coerced item) (rows config) = rk
                            \<and> map (coerced item) (columns config) = ck"
  let ?W = "\<lambda>d. sum_list (map (weight vc) d)"
  let ?M = "\<lambda>d. sum_list (map (magnitude vc) d)"
  let ?zs = "map (\<lambda>ck. ?W (filter (?pcell ck) fd)) ?CK"
  let ?ns = "map (\<lambda>z. Fin (of_int z)) ?zs"
  have lr: "length rk = length (rows config)" using rk by (rule length_getNestedKeys)
  have tot: "numberAt k (rowTotalOf P config fd rk) = Some (Fin (of_int (?W (filter ?prow fd))))"
    using numberAt_aggregatedValues [OF fnd agg ex, of P ?prow]
    by (simp add: rowTotalOf_def getSubsetData_row lr)
  have eq: "map (\<lambda>cell. numberAt k (cellValue cell)) (map (\<lambda>ck. makeCell P config fd rk ck) ?CK)
        = map (\<lambda>ck. Some (Fin (of_int (?W (filter (?pcell ck) fd))))) ?CK"
    unfolding map_map comp_def
  proof (rule map_cong [OF refl])
    fix ck assume "ck \<in> set ?CK"
    then have "length ck = length (columns config)" by (rule length_getNestedKeys)
    then show "numberAt k (cellValue (makeCell P config fd rk ck))
               = Some (Fin (of_int (?W (filter (?pcell ck) fd))))"
      using numberAt_aggregatedValues [OF fnd agg ex, of P "?pcell ck"]
      by (simp add: getSubsetData_filter lr)
  qed
  have cs: "those (map (\<lambda>cell. numberAt k (cellValue cell))
                     (map (\<lambda>ck. makeCell P config fd rk ck) ?CK)) = Some ?ns"
    unfolding eq by (simp add: those_map_Some comp_def)
  have part: "mset (concat (map (\<lambda>ck. filter (?pcell ck) fd) ?CK)) = mset (filter ?prow fd)"
    by (rule partition_by_key) (simp_all add: key_in_getNestedKeys)
  have sumW: "sum_list ?zs = ?W (filter ?prow fd)"
  proof -
    have "sum_list ?zs = ?W (concat (map (\<lambda>ck. filter (?pcell ck) fd) ?CK))"
      by (simp add: sum_list_concat_map comp_def)
    also have "\<dots> = ?W (filter ?prow fd)"
      using part by (rule sum_list_mset_cong)
    finally show ?thesis .
  qed
  have sumM: "sum_list (map (\<lambda>z. \<bar>z\<bar>) ?zs) < 2 ^ 53"
  proof -
    have "sum_list (map (\<lambda>z. \<bar>z\<bar>) ?zs)
          = sum_list (map (\<lambda>ck. \<bar>?W (filter (?pcell ck) fd)\<bar>) ?CK)"
      by (simp add: comp_def)
    also have "\<dots> \<le> sum_list (map (\<lambda>ck. ?M (filter (?pcell ck) fd)) ?CK)"
      by (rule sum_list_mono) (rule abs_weights_le)
    also have "\<dots> = ?M (concat (map (\<lambda>ck. filter (?pcell ck) fd) ?CK))"
      by (simp add: sum_list_concat_map comp_def)
    also have "\<dots> = ?M (filter ?prow fd)"
      using part by (rule sum_list_mset_cong)
    also have "\<dots> \<le> ?M fd" by (rule magnitude_filter_le)
    also have "\<dots> < 2 ^ 53"
      using ex by (simp add: exactlySummable_def sum_magnitudes)
    finally show ?thesis .
  qed
  have ip: "map integerPart ?ns = ?zs" by (simp add: comp_def)
  have "exactlySummable ?ns"
    unfolding exactlySummable_def
  proof
    show "list_all integerValued ?ns" by (simp add: list_all_iff)
    have "map (\<lambda>x. \<bar>integerPart x\<bar>) ?ns = map (\<lambda>z. \<bar>z\<bar>) ?zs" by (simp add: comp_def)
    then show "sum_list (map (\<lambda>x. \<bar>integerPart x\<bar>) ?ns) < 2 ^ 53"
      using sumM by (simp only:)
  qed
  then have "sumReduce ?ns = Fin (of_int (sum_list (map integerPart ?ns)))"
    by (rule sumReduce_exact)
  then have fl: "sumReduce ?ns = Fin (of_int (?W (filter ?prow fd)))"
    by (simp only: ip sumW)
  have exact: "exactTotal ?ns = Some (of_int (?W (filter ?prow fd)))"
    using exactTotal_integers [of ?zs] by (simp only: sumW)
  show ?thesis
    unfolding rowTotalIsSumOfCells_def rowTotalIsExactSumOfCells_def cs
    using tot fl exact by simp
qed

lemma text_summable:
  "exactlySummable (summedNumbers textRecords \<lparr>vf_field = ''sales'', vf_aggregation = Sum\<rparr>)"
  by (simp add: exactlySummable_def summedNumbers_def contribution_def textRecords_def
      numericValues_def fieldValues_def getField_def isNaN_def parse_simps)

text \<open>
  C2, as amended. Let every value field of the configuration be a \<^verbatim>\<open>sum\<close>, a \<^verbatim>\<open>count\<close> or
  an \<^verbatim>\<open>integerSum\<close>, and let the numbers each of them adds over the filtered records be
  exactly summable: all integers, of magnitudes that total less than \<open>2\<^sup>5\<^sup>3\<close> (for a
  \<^verbatim>\<open>count\<close>: fewer than \<open>2\<^sup>5\<^sup>3\<close> records). Then for every row and every value key the row
  total is the sum of the values of the row's cells, whether the cells are added as
  the language adds numbers or as rationals.
\<close>

theorem row_total_is_sum_of_cells:
  assumes "\<forall>vc \<in> set (valueFields config).
             vf_aggregation vc \<in> {Sum, Count, IntegerSum}
             \<and> exactlySummable (summedNumbers (filterData data (filters config)) vc)"
    and "r < length (rowTotals (generatePivotTable P data config))"
    and "vc \<in> set (valueFields config)"
  shows "rowTotalIsSumOfCells (valueKey vc)
           (rowTotals (generatePivotTable P data config) ! r)
           (cells (generatePivotTable P data config) ! r)
         \<and> rowTotalIsExactSumOfCells (valueKey vc)
           (rowTotals (generatePivotTable P data config) ! r)
           (cells (generatePivotTable P data config) ! r)"
proof -
  let ?fd = "filterData data (filters config)"
  let ?RK = "getNestedKeys P ?fd (rows config)"
  from assms(2) have r: "r < length ?RK" by simp
  then have rk: "?RK ! r \<in> set ?RK" by simp
  obtain vc' where f: "List.find (\<lambda>v. valueKey v = valueKey vc) (rev (valueFields config)) = Some vc'"
    and m: "vc' \<in> set (valueFields config)"
    using find_rev_Some [OF assms(3), of valueKey] by blast
  from assms(1) m have agg: "vf_aggregation vc' \<in> {Sum, Count, IntegerSum}"
    and ex: "exactlySummable (summedNumbers ?fd vc')"
    by blast+
  show ?thesis
    using row_cells_sum [OF agg ex f rk] r by (simp add: cells_row rowTotals_row)
qed

theorem row_total_is_sum_of_cells_witness:
  "list_all (\<lambda>vc. vf_aggregation vc \<in> {Sum, Count, IntegerSum}
                  \<and> exactlySummable (summedNumbers (filterData textRecords (filters exampleConfig)) vc))
     (valueFields exampleConfig)
   \<and> 0 < length (rowTotals (generatePivotTable exampleHost textRecords exampleConfig))
   \<and> rowTotalIsSumOfCells ''sales (sum)''
        (rowTotals (generatePivotTable exampleHost textRecords exampleConfig) ! 0)
        (cells (generatePivotTable exampleHost textRecords exampleConfig) ! 0)
   \<and> rowTotalIsExactSumOfCells ''sales (sum)''
        (rowTotals (generatePivotTable exampleHost textRecords exampleConfig) ! 0)
        (cells (generatePivotTable exampleHost textRecords exampleConfig) ! 0)"
proof -
  have h0: "list_all (\<lambda>vc. vf_aggregation vc \<in> {Sum, Count, IntegerSum}
                  \<and> exactlySummable (summedNumbers (filterData textRecords (filters exampleConfig)) vc))
     (valueFields exampleConfig)"
    using text_summable by (simp add: text_filtered) (simp add: exampleConfig_def)
  then have h1: "\<forall>vc \<in> set (valueFields exampleConfig).
             vf_aggregation vc \<in> {Sum, Count, IntegerSum}
             \<and> exactlySummable (summedNumbers (filterData textRecords (filters exampleConfig)) vc)"
    by (simp add: list_all_iff)
  have "hd textRecords \<in> set (filterData textRecords (filters exampleConfig))"
    by (simp add: text_filtered) (simp add: textRecords_def)
  then have h2: "0 < length (rowTotals (generatePivotTable exampleHost textRecords exampleConfig))"
    using getNestedKeys_nonempty by simp
  have h3: "\<lparr>vf_field = ''sales'', vf_aggregation = Sum\<rparr> \<in> set (valueFields exampleConfig)"
    by (simp add: exampleConfig_def)
  have k: "valueKey \<lparr>vf_field = ''sales'', vf_aggregation = Sum\<rparr> = ''sales (sum)''"
    by (simp add: valueKey_def)
  show ?thesis
    using h0 h2 row_total_is_sum_of_cells [OF h1 h2 h3] by (simp add: k)
qed

text \<open>Without that condition the additions round, and they round differently in the row
  total and in the cells. The row total of \<^verbatim>\<open>"9007199254740992"\<close>, \<^verbatim>\<open>"1"\<close>, \<^verbatim>\<open>"1"\<close> is
  \<open>9007199254740992\<close>, each \<open>1\<close> being lost to rounding, while the two cells hold
  \<open>9007199254740992\<close> and \<open>2\<close>, whose sum is \<open>9007199254740994\<close>. The row total of
  \<^verbatim>\<open>"0.1"\<close>, \<^verbatim>\<open>"0.2"\<close>, \<^verbatim>\<open>"0.3"\<close> is \<open>0.6000000000000001\<close>, while the two cells hold
  \<open>0.1\<close> and \<open>0.5\<close>, whose sum is \<open>0.6\<close> as the language adds them and is no binary64
  value as rationals.\<close>

lemma rounding_column_values:
  "distinctValues (filterData roundingRecords (filters roundingConfig)) ''k'' = [''a'', ''b'']"
  by (simp add: roundingRecords_def roundingConfig_def filterData_def distinctValues_def
      coerced_def getField_def Set_add_def)

lemma rounding_columns:
  "getNestedKeys exampleHost (filterData roundingRecords (filters roundingConfig)) (columns roundingConfig)
   = [[''a''], [''b'']]"
proof -
  have "sortedValues exampleHost (filterData roundingRecords (filters roundingConfig)) ''k''
        = [''a'', ''b'']"
    by (simp add: sortedValues_text [OF rounding_column_values] parse_simps stableSort_def)
  then show ?thesis by (simp add: getNestedKeys_product roundingConfig_def [THEN arg_cong])
qed

lemma rounding_rows:
  "getNestedKeys exampleHost (filterData roundingRecords (filters roundingConfig)) (rows roundingConfig)
   = [[]]"
  by (simp add: getNestedKeys_def roundingConfig_def)

lemma rounding_row_total:
  "rowTotals (generatePivotTable exampleHost roundingRecords roundingConfig) ! 0
   = [(''v (sum)'', RNum (Fin 9007199254740992)), (''v (integerSum)'', RNum (Fin 9007199254740992))]"
  by (simp add: generatePivotTable_def Let_def rounding_rows rounding_columns rowTotalOf_def
      getSubsetData_def)
     (simp add: roundingRecords_def roundingConfig_def filterData_def aggregate_simps
       fl_two_53 fl_two_53_plus_1)

lemma rounding_cells:
  "map cellValue (cells (generatePivotTable exampleHost roundingRecords roundingConfig) ! 0)
   = [[(''v (sum)'', RNum (Fin 9007199254740992)), (''v (integerSum)'', RNum (Fin 9007199254740992))],
      [(''v (sum)'', RNum (Fin 2)), (''v (integerSum)'', RNum (Fin 2))]]"
  by (simp add: generatePivotTable_def Let_def rounding_rows rounding_columns makeCell_def
      getSubsetData_def fieldAt_def)
     (simp add: roundingRecords_def roundingConfig_def filterData_def coerced_def aggregate_simps
       fl_two_53)

lemma decimal_column_values:
  "distinctValues (filterData decimalRecords (filters decimalConfig)) ''k'' = [''a'', ''b'']"
  by (simp add: decimalRecords_def decimalConfig_def filterData_def distinctValues_def
      coerced_def getField_def Set_add_def)

lemma decimal_columns:
  "getNestedKeys exampleHost (filterData decimalRecords (filters decimalConfig)) (columns decimalConfig)
   = [[''a''], [''b'']]"
proof -
  have "sortedValues exampleHost (filterData decimalRecords (filters decimalConfig)) ''k''
        = [''a'', ''b'']"
    by (simp add: sortedValues_text [OF decimal_column_values] parse_simps stableSort_def)
  then show ?thesis by (simp add: getNestedKeys_product decimalConfig_def [THEN arg_cong])
qed

lemma decimal_rows:
  "getNestedKeys exampleHost (filterData decimalRecords (filters decimalConfig)) (rows decimalConfig)
   = [[]]"
  by (simp add: getNestedKeys_def decimalConfig_def)

lemmas decimal_aggregate_simps = aggregatedValues_def valueKey_def aggregate_def fieldValues_def
  numericValues_def sumReduce_def getField_def isNaN_def decimal_sums

lemma decimal_row_total:
  "rowTotals (generatePivotTable exampleHost decimalRecords decimalConfig) ! 0
   = [(''v (sum)'', RNum (Fin (1351079888211149 / 2251799813685248)))]"
  by (simp add: generatePivotTable_def Let_def decimal_rows decimal_columns rowTotalOf_def
      getSubsetData_def)
     (simp add: decimalRecords_def decimalConfig_def filterData_def decimal_aggregate_simps
       del: jsadd.simps)

lemma decimal_cells:
  "map cellValue (cells (generatePivotTable exampleHost decimalRecords decimalConfig) ! 0)
   = [[(''v (sum)'', RNum (Fin (3602879701896397 / 36028797018963968)))],
      [(''v (sum)'', RNum (Fin (1 / 2)))]]"
  by (simp add: generatePivotTable_def Let_def decimal_rows decimal_columns makeCell_def
      getSubsetData_def fieldAt_def)
     (simp add: decimalRecords_def decimalConfig_def filterData_def coerced_def
       decimal_aggregate_simps del: jsadd.simps)

theorem row_total_rounding_counterexample:
  "list_all (\<lambda>vc. vf_aggregation vc \<in> {Sum, Count, IntegerSum}) (valueFields roundingConfig)
   \<and> \<not> rowTotalIsSumOfCells ''v (sum)''
         (rowTotals (generatePivotTable exampleHost roundingRecords roundingConfig) ! 0)
         (cells (generatePivotTable exampleHost roundingRecords roundingConfig) ! 0)
   \<and> \<not> rowTotalIsExactSumOfCells ''v (sum)''
         (rowTotals (generatePivotTable exampleHost roundingRecords roundingConfig) ! 0)
         (cells (generatePivotTable exampleHost roundingRecords roundingConfig) ! 0)
   \<and> \<not> rowTotalIsSumOfCells ''v (integerSum)''
         (rowTotals (generatePivotTable exampleHost roundingRecords roundingConfig) ! 0)
         (cells (generatePivotTable exampleHost roundingRecords roundingConfig) ! 0)
   \<and> \<not> rowTotalIsExactSumOfCells ''v (integerSum)''
         (rowTotals (generatePivotTable exampleHost roundingRecords roundingConfig) ! 0)
         (cells (generatePivotTable exampleHost roundingRecords roundingConfig) ! 0)
   \<and> numberAt ''v (sum)''
         (rowTotals (generatePivotTable exampleHost roundingRecords roundingConfig) ! 0)
       = Some (Fin 9007199254740992)
   \<and> map (\<lambda>cell. numberAt ''v (sum)'' (cellValue cell))
         (cells (generatePivotTable exampleHost roundingRecords roundingConfig) ! 0)
       = [Some (Fin 9007199254740992), Some (Fin 2)]
   \<and> list_all (\<lambda>vc. vf_aggregation vc \<in> {Sum, Count, IntegerSum}) (valueFields decimalConfig)
   \<and> \<not> rowTotalIsSumOfCells ''v (sum)''
         (rowTotals (generatePivotTable exampleHost decimalRecords decimalConfig) ! 0)
         (cells (generatePivotTable exampleHost decimalRecords decimalConfig) ! 0)
   \<and> \<not> rowTotalIsExactSumOfCells ''v (sum)''
         (rowTotals (generatePivotTable exampleHost decimalRecords decimalConfig) ! 0)
         (cells (generatePivotTable exampleHost decimalRecords decimalConfig) ! 0)
   \<and> numberAt ''v (sum)''
         (rowTotals (generatePivotTable exampleHost decimalRecords decimalConfig) ! 0)
       = Some (Fin (1351079888211149 / 2251799813685248))
   \<and> map (\<lambda>cell. numberAt ''v (sum)'' (cellValue cell))
         (cells (generatePivotTable exampleHost decimalRecords decimalConfig) ! 0)
       = [Some (Fin (3602879701896397 / 36028797018963968)), Some (Fin (1 / 2))]"
proof -
  have c: "map (\<lambda>cell. numberAt key (cellValue cell))
             (cells (generatePivotTable exampleHost roundingRecords roundingConfig) ! 0)
           = map (numberAt key)
               (map cellValue (cells (generatePivotTable exampleHost roundingRecords roundingConfig) ! 0))"
    for key by simp
  have d: "map (\<lambda>cell. numberAt key (cellValue cell))
             (cells (generatePivotTable exampleHost decimalRecords decimalConfig) ! 0)
           = map (numberAt key)
               (map cellValue (cells (generatePivotTable exampleHost decimalRecords decimalConfig) ! 0))"
    for key by simp
  have rounding:
    "list_all (\<lambda>vc. vf_aggregation vc \<in> {Sum, Count, IntegerSum}) (valueFields roundingConfig)
     \<and> \<not> rowTotalIsSumOfCells ''v (sum)''
           (rowTotals (generatePivotTable exampleHost roundingRecords roundingConfig) ! 0)
           (cells (generatePivotTable exampleHost roundingRecords roundingConfig) ! 0)
     \<and> \<not> rowTotalIsExactSumOfCells ''v (sum)''
           (rowTotals (generatePivotTable exampleHost roundingRecords roundingConfig) ! 0)
           (cells (generatePivotTable exampleHost roundingRecords roundingConfig) ! 0)
     \<and> \<not> rowTotalIsSumOfCells ''v (integerSum)''
           (rowTotals (generatePivotTable exampleHost roundingRecords roundingConfig) ! 0)
           (cells (generatePivotTable exampleHost roundingRecords roundingConfig) ! 0)
     \<and> \<not> rowTotalIsExactSumOfCells ''v (integerSum)''
           (rowTotals (generatePivotTable exampleHost roundingRecords roundingConfig) ! 0)
           (cells (generatePivotTable exampleHost roundingRecords roundingConfig) ! 0)
     \<and> numberAt ''v (sum)''
           (rowTotals (generatePivotTable exampleHost roundingRecords roundingConfig) ! 0)
         = Some (Fin 9007199254740992)
     \<and> map (\<lambda>cell. numberAt ''v (sum)'' (cellValue cell))
           (cells (generatePivotTable exampleHost roundingRecords roundingConfig) ! 0)
         = [Some (Fin 9007199254740992), Some (Fin 2)]"
    unfolding rowTotalIsSumOfCells_def rowTotalIsExactSumOfCells_def c rounding_cells
      rounding_row_total
    by (simp add: roundingConfig_def numberAt_def sumReduce_def fl_two_53 fl_two_53_plus_2)
  have decimal:
    "list_all (\<lambda>vc. vf_aggregation vc \<in> {Sum, Count, IntegerSum}) (valueFields decimalConfig)
     \<and> \<not> rowTotalIsSumOfCells ''v (sum)''
           (rowTotals (generatePivotTable exampleHost decimalRecords decimalConfig) ! 0)
           (cells (generatePivotTable exampleHost decimalRecords decimalConfig) ! 0)
     \<and> \<not> rowTotalIsExactSumOfCells ''v (sum)''
           (rowTotals (generatePivotTable exampleHost decimalRecords decimalConfig) ! 0)
           (cells (generatePivotTable exampleHost decimalRecords decimalConfig) ! 0)
     \<and> numberAt ''v (sum)''
           (rowTotals (generatePivotTable exampleHost decimalRecords decimalConfig) ! 0)
         = Some (Fin (1351079888211149 / 2251799813685248))
     \<and> map (\<lambda>cell. numberAt ''v (sum)'' (cellValue cell))
           (cells (generatePivotTable exampleHost decimalRecords decimalConfig) ! 0)
         = [Some (Fin (3602879701896397 / 36028797018963968)), Some (Fin (1 / 2))]"
    unfolding rowTotalIsSumOfCells_def rowTotalIsExactSumOfCells_def d decimal_cells
      decimal_row_total
    by (simp add: decimalConfig_def numberAt_def sumReduce_def add_zero_tenth add_tenth_half
        del: jsadd.simps)
  from rounding decimal show ?thesis by (simp only: simp_thms)
qed

end
